theory Spec2Isabelle
  imports Complex_Main "HOL-Library.Word" "HOL-Library.Multiset"
begin

section \<open>Numeric values and errors of the notebooks\<close>

text \<open>
  The notebooks are Python over numpy, scipy, OpenCV and scikit-image. A raised exception is
  a value of \<open>py_error\<close>, and every modelled function that can raise returns
  \<open>py_error + 'a\<close> with \<open>Inl\<close> for the exception.
\<close>

datatype py_error = AssertionError | AttributeError | NameError | ValueError | RuntimeError

text \<open>
  A numpy \<open>float64\<close> is a finite number or one of the three special values of IEEE 754.
  Finite arithmetic is exact arithmetic on \<open>real\<close> (rounding is not modelled); the special
  values follow IEEE 754: \<open>inf - inf\<close> and \<open>0 * inf\<close> are \<open>nan\<close>, every comparison with
  \<open>nan\<close> is false, and \<open>np.log 0\<close> is \<open>-inf\<close>.
\<close>

datatype npfloat = Fin real | PInf | NInf | NaN

fun np_neg :: "npfloat \<Rightarrow> npfloat" where
  "np_neg (Fin a) = Fin (- a)"
| "np_neg PInf = NInf"
| "np_neg NInf = PInf"
| "np_neg NaN = NaN"

fun np_add :: "npfloat \<Rightarrow> npfloat \<Rightarrow> npfloat" where
  "np_add NaN _ = NaN"
| "np_add _ NaN = NaN"
| "np_add (Fin a) (Fin b) = Fin (a + b)"
| "np_add PInf NInf = NaN"
| "np_add NInf PInf = NaN"
| "np_add PInf _ = PInf"
| "np_add NInf _ = NInf"
| "np_add (Fin a) PInf = PInf"
| "np_add (Fin a) NInf = NInf"

definition np_sub :: "npfloat \<Rightarrow> npfloat \<Rightarrow> npfloat" where
  "np_sub a b = np_add a (np_neg b)"

fun np_mul :: "npfloat \<Rightarrow> npfloat \<Rightarrow> npfloat" where
  "np_mul NaN _ = NaN"
| "np_mul _ NaN = NaN"
| "np_mul (Fin a) (Fin b) = Fin (a * b)"
| "np_mul (Fin a) PInf = (if a = 0 then NaN else if 0 < a then PInf else NInf)"
| "np_mul (Fin a) NInf = (if a = 0 then NaN else if 0 < a then NInf else PInf)"
| "np_mul PInf (Fin b) = (if b = 0 then NaN else if 0 < b then PInf else NInf)"
| "np_mul NInf (Fin b) = (if b = 0 then NaN else if 0 < b then NInf else PInf)"
| "np_mul PInf PInf = PInf"
| "np_mul PInf NInf = NInf"
| "np_mul NInf PInf = NInf"
| "np_mul NInf NInf = PInf"

text \<open>\<open>a > b\<close> on floats: false as soon as one side is \<open>nan\<close>.\<close>

fun np_gt :: "npfloat \<Rightarrow> npfloat \<Rightarrow> bool" where
  "np_gt NaN _ = False"
| "np_gt _ NaN = False"
| "np_gt (Fin a) (Fin b) = (b < a)"
| "np_gt PInf PInf = False"
| "np_gt PInf _ = True"
| "np_gt NInf _ = False"
| "np_gt (Fin a) PInf = False"
| "np_gt (Fin a) NInf = True"

text \<open>\<open>np.log\<close> of a non-negative magnitude.\<close>

definition np_log :: "real \<Rightarrow> npfloat" where
  "np_log x = (if x = 0 then NInf else if x < 0 then NaN else Fin (ln x))"

text \<open>
  \<open>ndarray.max()\<close> and \<open>ndarray.min()\<close> of a flattened array: \<open>ValueError\<close> on an empty
  array, \<open>nan\<close> as soon as one entry is \<open>nan\<close>.
\<close>

fun np_max2 :: "npfloat \<Rightarrow> npfloat \<Rightarrow> npfloat" where
  "np_max2 NaN _ = NaN"
| "np_max2 _ NaN = NaN"
| "np_max2 a b = (if np_gt b a then b else a)"

fun np_min2 :: "npfloat \<Rightarrow> npfloat \<Rightarrow> npfloat" where
  "np_min2 NaN _ = NaN"
| "np_min2 _ NaN = NaN"
| "np_min2 a b = (if np_gt a b then b else a)"

fun np_max :: "npfloat list \<Rightarrow> py_error + npfloat" where
  "np_max [] = Inl ValueError"
| "np_max (x # xs) = Inr (foldl np_max2 x xs)"

fun np_min :: "npfloat list \<Rightarrow> py_error + npfloat" where
  "np_min [] = Inl ValueError"
| "np_min (x # xs) = Inr (foldl np_min2 x xs)"

section \<open>PCA component cut (the \<open>i_comp_thresholds\<close> cells)\<close>

text \<open>
  \<^verbatim>\<open>variances = pca.explained_variance_ratio_.cumsum()\<close>
  \<^verbatim>\<open>i_comp_thresholds.append((variances > variance_threshold).argmax())\<close>

  \<open>cumsum\<close> is the running sum. \<open>argmax\<close> returns the index of the first occurrence of the
  largest entry and raises \<open>ValueError\<close> on an empty array; on a boolean array \<open>False < True\<close>.
\<close>

fun cumsum_from :: "real \<Rightarrow> real list \<Rightarrow> real list" where
  "cumsum_from acc [] = []"
| "cumsum_from acc (x # xs) = (acc + x) # cumsum_from (acc + x) xs"

definition cumsum :: "real list \<Rightarrow> real list" where
  "cumsum xs = cumsum_from 0 xs"

fun argmax_from :: "'a::linorder \<Rightarrow> nat \<Rightarrow> nat \<Rightarrow> 'a list \<Rightarrow> nat" where
  "argmax_from best ibest i [] = ibest"
| "argmax_from best ibest i (x # xs) =
     (if best < x then argmax_from x i (Suc i) xs else argmax_from best ibest (Suc i) xs)"

fun argmax :: "'a::linorder list \<Rightarrow> py_error + nat" where
  "argmax [] = Inl ValueError"
| "argmax (x # xs) = Inr (argmax_from x 0 1 xs)"

definition i_comp_threshold :: "real list \<Rightarrow> real \<Rightarrow> py_error + nat" where
  "i_comp_threshold explained_variance_ratio variance_threshold =
     (let variances = cumsum explained_variance_ratio
      in argmax (map (\<lambda>v. variance_threshold < v) variances))"

fun i_comp_thresholds :: "real list \<Rightarrow> real list \<Rightarrow> py_error + nat list" where
  "i_comp_thresholds explained_variance_ratio [] = Inr []"
| "i_comp_thresholds explained_variance_ratio (t # ts) =
     (case i_comp_threshold explained_variance_ratio t of
        Inl e \<Rightarrow> Inl e
      | Inr i \<Rightarrow> (case i_comp_thresholds explained_variance_ratio ts of
                   Inl e \<Rightarrow> Inl e
                 | Inr is \<Rightarrow> Inr (i # is)))"

section \<open>Gaussian anomaly scorer (\<open>GaussianAD\<close>, \<open>mahalanobis_distance\<close>)\<close>

text \<open>
  The scorer computes in \<open>float64\<close>, where a result can overflow: a finite result whose
  magnitude reaches \<open>2 ^ 1024 - 2 ^ 970\<close> is rounded to an infinity. Below that bound a finite
  result is kept exact (rounding is not modelled).
\<close>

definition fl_overflow :: real where
  "fl_overflow = 2 ^ 1024 - 2 ^ 970"

definition np_overflow :: "npfloat \<Rightarrow> npfloat" where
  "np_overflow x =
     (case x of
        Fin r \<Rightarrow> if fl_overflow \<le> r then PInf else if r \<le> - fl_overflow then NInf else Fin r
      | _ \<Rightarrow> x)"

definition fl_add :: "npfloat \<Rightarrow> npfloat \<Rightarrow> npfloat" where
  "fl_add a b = np_overflow (np_add a b)"

definition fl_sub :: "npfloat \<Rightarrow> npfloat \<Rightarrow> npfloat" where
  "fl_sub a b = np_overflow (np_sub a b)"

definition fl_mul :: "npfloat \<Rightarrow> npfloat \<Rightarrow> npfloat" where
  "fl_mul a b = np_overflow (np_mul a b)"

text \<open>A sum accumulated from left to right, starting at 0.\<close>

definition fl_sum :: "npfloat list \<Rightarrow> npfloat" where
  "fl_sum xs = foldl fl_add (Fin 0) xs"

text \<open>
  \<open>np.sqrt\<close>: \<open>nan\<close> for a negative number, for \<open>-inf\<close> and for \<open>nan\<close>; \<open>inf\<close> for \<open>inf\<close>.
\<close>

fun np_sqrt :: "npfloat \<Rightarrow> npfloat" where
  "np_sqrt (Fin x) = (if x < 0 then NaN else Fin (sqrt x))"
| "np_sqrt PInf = PInf"
| "np_sqrt NInf = NaN"
| "np_sqrt NaN = NaN"

text \<open>
  A numpy array of \<open>float64\<close> is its shape and its entries in row-major order, each a finite
  number, an infinity or \<open>nan\<close>; a well-formed array has as many entries as its shape says,
  and its finite entries are below the overflow bound. Entry \<open>[i, j]\<close> of an array of shape
  \<open>[r, c]\<close> is entry \<open>i * c + j\<close> of \<open>elems\<close>.
\<close>

record ndarray =
  shape :: "nat list"
  elems :: "npfloat list"

definition ndim :: "ndarray \<Rightarrow> nat" where
  "ndim a = length (shape a)"



text \<open>The rows of an array of shape \<open>[r, c]\<close>.\<close>

definition rows_of :: "ndarray \<Rightarrow> npfloat list list" where
  "rows_of a =
     (let r = shape a ! 0; c = shape a ! 1
      in map (\<lambda>i. take c (drop (i * c) (elems a))) [0..<r])"

text \<open>\<open>np.expand_dims(mean, 0)\<close>: shape \<open>[n]\<close> becomes \<open>[1, n]\<close>.\<close>

definition expand_dims0 :: "ndarray \<Rightarrow> ndarray" where
  "expand_dims0 a = a\<lparr>shape := 1 # shape a\<rparr>"

definition vsub :: "npfloat list \<Rightarrow> npfloat list \<Rightarrow> npfloat list" where
  "vsub x y = map2 fl_sub x y"

text \<open>
  \<open>values - mean\<close> for two arrays of shapes \<open>[b, n]\<close> and \<open>[m, n]\<close>: numpy broadcasts an axis
  of length 1 against the other array's axis and raises \<open>ValueError\<close> when the row counts
  differ and neither is 1. The result is the list of rows.
\<close>

definition broadcast_sub :: "ndarray \<Rightarrow> ndarray \<Rightarrow> py_error + npfloat list list" where
  "broadcast_sub values mean =
     (let b = shape values ! 0; m = shape mean ! 0
      in if m = b then Inr (map2 vsub (rows_of values) (rows_of mean))
         else if m = 1 then Inr (map (\<lambda>v. vsub v (hd (rows_of mean))) (rows_of values))
         else if b = 1 then Inr (map (\<lambda>mu. vsub (hd (rows_of values)) mu) (rows_of mean))
         else Inl ValueError)"

text \<open>
  One entry of \<^verbatim>\<open>np.einsum("im,mn,in->i", x_mu, inv_covariance, x_mu)\<close>: the double sum
  over \<open>m\<close> and \<open>n\<close> of \<open>x[m] * inv_covariance[m, n] * x[n]\<close>, the products taken from left
  to right, the sum over \<open>n\<close> accumulated for each \<open>m\<close> and these sums accumulated over \<open>m\<close>.
\<close>

definition einsum_row :: "nat \<Rightarrow> npfloat list \<Rightarrow> npfloat list \<Rightarrow> npfloat" where
  "einsum_row n x inv_cov =
     fl_sum (map (\<lambda>m. fl_sum (map (\<lambda>k. fl_mul (fl_mul (x ! m) (inv_cov ! (m * n + k))) (x ! k))
                                  [0..<n]))
               [0..<n])"

text \<open>
  \<^verbatim>\<open>def mahalanobis_distance(values, mean, inv_covariance)\<close>: six \<open>assert\<close> statements on
  the shapes, in the source's order, then the scores.
\<close>

definition mahalanobis_distance ::
  "ndarray \<Rightarrow> ndarray \<Rightarrow> ndarray \<Rightarrow> py_error + npfloat list" where
  "mahalanobis_distance values mean inv_covariance =
     (if ndim values \<noteq> 2 then Inl AssertionError
      else if \<not> (1 \<le> ndim mean \<and> ndim mean \<le> 2) then Inl AssertionError
      else if length (shape inv_covariance) \<noteq> 2 then Inl AssertionError
      else if shape values ! 1 \<noteq> last (shape mean) then Inl AssertionError
      else if last (shape mean) \<noteq> shape inv_covariance ! 0 then Inl AssertionError
      else if shape inv_covariance ! 0 \<noteq> shape inv_covariance ! 1 then Inl AssertionError
      else
        let mean = (if ndim mean = 1 then expand_dims0 mean else mean)
        in case broadcast_sub values mean of
             Inl e \<Rightarrow> Inl e
           | Inr x_mu \<Rightarrow>
               let dist = map (\<lambda>x. einsum_row (shape inv_covariance ! 0) x (elems inv_covariance))
                            x_mu
               in Inr (map np_sqrt dist))"

text \<open>
  \<^verbatim>\<open>class GaussianAD\<close>: \<open>__init__\<close> sets \<open>mean\<close> and \<open>lw_prec\<close> to \<open>None\<close>; \<open>fit\<close> stores
  \<open>np.mean(X, axis=0)\<close> and the \<open>precision_\<close> of scikit-learn's \<open>LedoitWolf\<close> estimator.
  The estimator is library code; the field \<open>lw_cov\<close> that keeps the estimator object is not
  read by \<open>decision_function\<close> and is left out. Reading \<open>.ndim\<close> or \<open>.shape\<close> of \<open>None\<close>
  raises \<open>AttributeError\<close>, after the assertions that come first.
\<close>

record GaussianAD =
  mean :: "ndarray option"
  lw_prec :: "ndarray option"

definition decision_function :: "GaussianAD \<Rightarrow> ndarray \<Rightarrow> py_error + npfloat list" where
  "decision_function self X =
     (case mean self of
        None \<Rightarrow> if ndim X \<noteq> 2 then Inl AssertionError else Inl AttributeError
      | Some mu \<Rightarrow>
          (case lw_prec self of
             None \<Rightarrow> if ndim X \<noteq> 2 \<or> \<not> (1 \<le> ndim mu \<and> ndim mu \<le> 2)
                     then Inl AssertionError else Inl AttributeError
           | Some prec \<Rightarrow> mahalanobis_distance X mu prec))"







section \<open>Frequency-domain defect extraction (\<open>ft_extract_anomalies\<close>)\<close>

text \<open>
  A PIL image of mode \<open>L\<close> is a matrix of 8-bit pixels, a list of rows of equal length.
\<close>

type_synonym image = "8 word list list"

definition shape0 :: "'a list list \<Rightarrow> nat" where
  "shape0 img = length img"

definition shape1 :: "'a list list \<Rightarrow> nat" where
  "shape1 img = (case img of [] \<Rightarrow> 0 | row # _ \<Rightarrow> length row)"

text \<open>
  \<open>fftshift\<close> rolls every axis by \<open>n // 2\<close> places to the right and \<open>ifftshift\<close> by
  \<open>n // 2\<close> places to the left. \<open>rotate k\<close> rolls a list \<open>k\<close> places to the left.
\<close>

definition fftshift1 :: "'a list \<Rightarrow> 'a list" where
  "fftshift1 xs = rotate (length xs - length xs div 2) xs"

definition ifftshift1 :: "'a list \<Rightarrow> 'a list" where
  "ifftshift1 xs = rotate (length xs div 2) xs"

definition fftshift :: "'a list list \<Rightarrow> 'a list list" where
  "fftshift m = fftshift1 (map fftshift1 m)"

definition ifftshift :: "'a list list \<Rightarrow> 'a list list" where
  "ifftshift m = ifftshift1 (map ifftshift1 m)"

text \<open>
  \<^verbatim>\<open>cv2.threshold(src, thresh, maxval, cv2.THRESH_BINARY)\<close> on a \<open>float64\<close> array:
  \<open>maxval\<close> where \<open>src > thresh\<close>, 0 elsewhere. \<open>astype(bool)\<close> is \<open>x != 0\<close>.
\<close>

definition cv2_threshold_binary :: "npfloat list list \<Rightarrow> npfloat \<Rightarrow> real \<Rightarrow> real list list" where
  "cv2_threshold_binary src thresh maxval =
     map (map (\<lambda>s. if np_gt s thresh then maxval else 0)) src"

definition astype_bool :: "real list list \<Rightarrow> bool list list" where
  "astype_bool m = map (map (\<lambda>x. x \<noteq> 0)) m"

text \<open>
  \<open>astype(np.uint8)\<close> of a float: the fraction is dropped and the integer is reduced
  modulo \<open>2 ^ 8\<close>; nothing is clipped.
\<close>

definition np_trunc :: "real \<Rightarrow> int" where
  "np_trunc x = (if 0 \<le> x then \<lfloor>x\<rfloor> else \<lceil>x\<rceil>)"

definition astype_uint8 :: "real \<Rightarrow> 8 word" where
  "astype_uint8 x = word_of_int (np_trunc x)"

text \<open>The stages of \<open>ft_extract_anomalies\<close>, named after the source's variables.\<close>

definition mag_img_of :: "complex list list \<Rightarrow> npfloat list list" where
  "mag_img_of fshift = map (map (\<lambda>z. np_log (cmod z))) fshift"

definition thresh_val_of :: "npfloat list list \<Rightarrow> real \<Rightarrow> py_error + npfloat" where
  "thresh_val_of mag_img mag_thresh =
     (case np_max (concat mag_img) of
        Inl e \<Rightarrow> Inl e
      | Inr max_val \<Rightarrow>
          (case np_min (concat mag_img) of
             Inl e \<Rightarrow> Inl e
           | Inr min_val \<Rightarrow>
               Inr (np_add min_val (np_mul (Fin mag_thresh) (np_sub max_val min_val)))))"

definition mag_img_mask_of :: "npfloat list list \<Rightarrow> npfloat \<Rightarrow> bool list list" where
  "mag_img_mask_of mag_img thresh_val = astype_bool (cv2_threshold_binary mag_img thresh_val 1)"

text \<open>\<open>fshift * mag_img_mask_inv\<close>: a complex number times a boolean, \<open>True\<close> being 1.\<close>

definition mul_mask :: "complex list list \<Rightarrow> bool list list \<Rightarrow> complex list list" where
  "mul_mask fshift msk = map2 (map2 (\<lambda>z b. z * (if b then 1 else 0))) fshift msk"

text \<open>
  \<^verbatim>\<open>def ft_extract_anomalies(img, mag_thresh=0.5)\<close>. scipy's \<open>fft2\<close> and \<open>ifft2\<close> are
  library code and are parameters of the model; scipy raises \<open>ValueError\<close> for an array
  without entries.
\<close>

definition ft_extract_anomalies ::
  "(real list list \<Rightarrow> complex list list) \<Rightarrow> (complex list list \<Rightarrow> complex list list) \<Rightarrow>
   image \<Rightarrow> real \<Rightarrow> py_error + image" where
  "ft_extract_anomalies fft2 ifft2 img mag_thresh =
     (let img_np = map (map (\<lambda>p. real (unat p) / 255)) img
      in if concat img_np = [] then Inl ValueError
         else
           let f = fft2 img_np;
               fshift = fftshift f;
               mag_img = mag_img_of fshift
           in case thresh_val_of mag_img mag_thresh of
                Inl e \<Rightarrow> Inl e
              | Inr thresh_val \<Rightarrow>
                  let mag_img_mask = mag_img_mask_of mag_img thresh_val;
                      mag_img_mask_inv = map (map Not) mag_img_mask;
                      fshift_proc = mul_mask fshift mag_img_mask_inv;
                      f_ishift = ifftshift fshift_proc;
                      img_proc = ifft2 f_ishift;
                      img_proc = map (map cmod) img_proc;
                      img_proc = map (map (\<lambda>x. astype_uint8 (x * 255))) img_proc
                  in Inr img_proc)"

text \<open>
  The stages again as functions of the threshold, for stating what the function computes:
  the shifted spectrum, the spectrum after masking, and \<open>img_proc\<close> after \<open>np.abs\<close>.
\<close>

definition fshift_of :: "(real list list \<Rightarrow> complex list list) \<Rightarrow> image \<Rightarrow> complex list list" where
  "fshift_of fft2 img = fftshift (fft2 (map (map (\<lambda>p. real (unat p) / 255)) img))"

definition fshift_proc_of :: "complex list list \<Rightarrow> npfloat \<Rightarrow> complex list list" where
  "fshift_proc_of fshift thresh_val =
     mul_mask fshift (map (map Not) (mag_img_mask_of (mag_img_of fshift) thresh_val))"

definition img_proc_abs_of ::
  "(complex list list \<Rightarrow> complex list list) \<Rightarrow> complex list list \<Rightarrow> real list list" where
  "img_proc_abs_of ifft2 fshift_proc = map (map cmod) (ifft2 (ifftshift fshift_proc))"

text \<open>
  The number of true entries of a mask, and \<open>a <= b\<close> on floats (false as soon as one side
  is \<open>nan\<close>).
\<close>

definition count_true :: "bool list list \<Rightarrow> nat" where
  "count_true m = length (filter (\<lambda>b. b) (concat m))"

fun np_le :: "npfloat \<Rightarrow> npfloat \<Rightarrow> bool" where
  "np_le NaN _ = False"
| "np_le _ NaN = False"
| "np_le (Fin a) (Fin b) = (a \<le> b)"
| "np_le NInf _ = True"
| "np_le _ PInf = True"
| "np_le PInf _ = False"
| "np_le (Fin a) NInf = False"

text \<open>
  The discrete Fourier transform and its inverse, which \<open>scipy.fft.fft2\<close> and
  \<open>scipy.fft.ifft2\<close> compute up to rounding:
  \<open>F[k, l] = \<Sum>m n. x[m, n] * exp (- 2\<pi>i (k m / M + l n / N))\<close>. They are the instance of
  the two parameters in the examples.
\<close>

definition dft2 :: "real list list \<Rightarrow> complex list list" where
  "dft2 x =
     (let M = shape0 x; N = shape1 x
      in map (\<lambda>k. map (\<lambda>l. \<Sum>m\<leftarrow>[0..<M]. \<Sum>n\<leftarrow>[0..<N].
                complex_of_real (x ! m ! n) *
                  cis (- 2 * pi * (real k * real m / real M + real l * real n / real N)))
              [0..<N]) [0..<M])"

definition idft2 :: "complex list list \<Rightarrow> complex list list" where
  "idft2 y =
     (let M = shape0 y; N = shape1 y
      in map (\<lambda>m. map (\<lambda>n. (\<Sum>k\<leftarrow>[0..<M]. \<Sum>l\<leftarrow>[0..<N].
                y ! k ! l *
                  cis (2 * pi * (real k * real m / real M + real l * real n / real N)))
                / complex_of_real (real M * real N))
              [0..<N]) [0..<M])"

section \<open>Bounding boxes of defect regions (\<open>find_bounding_boxes\<close>, \<open>ft_defect_detection\<close>)\<close>

type_synonym pixel = "nat \<times> nat"
type_synonym bbox = "nat \<times> nat \<times> nat \<times> nat"

text \<open>
  \<^verbatim>\<open>np.percentile(a, q)\<close> with numpy's default linear interpolation: \<open>ValueError\<close> for a
  \<open>q\<close> outside \<open>[0, 100]\<close>; otherwise the entry of the sorted array at the virtual index
  \<open>q / 100 * (n - 1)\<close>, interpolated between its two neighbours. On an empty array numpy
  gives \<open>nan\<close>, which the following \<open>int(thresh_val)\<close> turns into \<open>ValueError\<close>;
  \<open>find_bounding_boxes\<close> never gets there, since \<open>img_np.max()\<close> raises first.
\<close>

definition np_percentile :: "real list \<Rightarrow> real \<Rightarrow> py_error + real" where
  "np_percentile a q =
     (if q < 0 \<or> 100 < q then Inl ValueError
      else if a = [] then Inl ValueError
      else
        let sorted = sort a;
            n = length a;
            virtual_index = q / 100 * real (n - 1);
            lo = nat \<lfloor>virtual_index\<rfloor>;
            hi = min (lo + 1) (n - 1);
            gamma = virtual_index - real lo
        in Inr (sorted ! lo + gamma * (sorted ! hi - sorted ! lo)))"

text \<open>
  \<^verbatim>\<open>cv2.threshold(src, thresh, maxval, cv2.THRESH_BINARY)\<close> on an 8-bit image with an
  integer threshold: \<open>maxval\<close> where \<open>src > thresh\<close>, 0 elsewhere.
\<close>

definition cv2_threshold_binary_u8 :: "image \<Rightarrow> int \<Rightarrow> 8 word \<Rightarrow> image" where
  "cv2_threshold_binary_u8 src thresh maxval =
     map (map (\<lambda>s. if thresh < uint s then maxval else 0)) src"

text \<open>
  \<^verbatim>\<open>morphology.binary_dilation(img_thresh, np.ones([d, d]))\<close>: a pixel of the result is
  set when some pixel of the input inside the \<open>d \<times> d\<close> window around it is set; pixels
  outside the image count as not set. For an odd \<open>d\<close> the window is centred: it reaches
  \<open>d div 2\<close> pixels to each side. (For an even \<open>d\<close> the window cannot be centred and reaches
  one pixel further to one side; the side is the library's convention.) \<open>np.ones\<close> raises
  \<open>ValueError\<close> for a negative size and the dilation raises \<open>RuntimeError\<close> for an empty
  structuring element.
\<close>

definition binary_dilation :: "bool list list \<Rightarrow> int \<Rightarrow> py_error + bool list list" where
  "binary_dilation bimg d =
     (if d < 0 then Inl ValueError
      else if d = 0 then Inl RuntimeError
      else
        let k = nat d
        in Inr (map (\<lambda>i. map (\<lambda>j.
                  list_ex (\<lambda>a. list_ex (\<lambda>b. bimg ! a ! b)
                                 [j - (k - 1) div 2 ..< min (length (bimg ! a)) (j + k div 2 + 1)])
                    [i - (k - 1) div 2 ..< min (length bimg) (i + k div 2 + 1)])
                [0..<length (bimg ! i)]) [0..<length bimg]))"

text \<open>
  Connected components with scikit-image's default connectivity for 2D images: two pixels
  are neighbours when their rows and their columns differ by at most one (8-connectivity).
  \<open>flood frontier rest\<close> collects the component of the pixels of \<open>frontier\<close> among the set
  pixels \<open>rest\<close> not yet assigned and returns it with the pixels left over.
  \<open>components\<close> takes the set pixels in raster order and returns the components in the
  order of their first pixels, the order of the label ids of \<open>measure.label\<close>.
\<close>

definition adjacent8 :: "pixel \<Rightarrow> pixel \<Rightarrow> bool" where
  "adjacent8 p q = (fst p \<le> fst q + 1 \<and> fst q \<le> fst p + 1 \<and> snd p \<le> snd q + 1 \<and> snd q \<le> snd p + 1)"

function flood :: "pixel list \<Rightarrow> pixel list \<Rightarrow> pixel list \<times> pixel list" where
  "flood [] rest = ([], rest)"
| "flood (p # frontier) rest =
     (let nb = filter (adjacent8 p) rest;
          rest' = filter (\<lambda>q. \<not> adjacent8 p q) rest;
          (comp, rest'') = flood (frontier @ nb) rest'
      in (p # comp, rest''))"
  by pat_completeness auto
termination
  by (relation "measure (\<lambda>(frontier, rest). length frontier + length rest)")
     (auto simp: sum_length_filter_compl less_Suc_eq_le)

lemma flood_rest_length: "length (snd (flood frontier rest)) \<le> length rest"
proof (induction frontier rest rule: flood.induct)
  case (1 rest)
  show ?case by simp
next
  case (2 p frontier rest)
  have "length (snd (flood (frontier @ filter (adjacent8 p) rest)
                        (filter (\<lambda>q. \<not> adjacent8 p q) rest)))
          \<le> length (filter (\<lambda>q. \<not> adjacent8 p q) rest)"
    using 2 by simp
  also have "\<dots> \<le> length rest" by simp
  finally show ?case by (auto simp: Let_def split: prod.split)
qed

function components :: "pixel list \<Rightarrow> pixel list list" where
  "components [] = []"
| "components (p # ps) = (let (comp, rest) = flood [p] ps in comp # components rest)"
  by pat_completeness auto
termination
proof (relation "measure length")
  show "wf (measure length)" by simp
next
  fix p :: pixel and ps x comp rest
  assume "x = flood [p] ps" and "(comp, rest) = x"
  then have "rest = snd (flood [p] ps)" by (metis snd_conv)
  then show "(rest, p # ps) \<in> measure length"
    using flood_rest_length [of "[p]" ps] by simp
qed

text \<open>
  What a connected region is: a set of pixels is 8-connected when any two of its pixels are
  joined by a chain of neighbouring pixels of the set.
\<close>

definition linked :: "pixel set \<Rightarrow> (pixel \<times> pixel) set" where
  "linked S = {(p, q). p \<in> S \<and> q \<in> S \<and> adjacent8 p q}"

definition connected8 :: "pixel set \<Rightarrow> bool" where
  "connected8 S = (\<forall>p \<in> S. \<forall>q \<in> S. (p, q) \<in> (linked S)\<^sup>*)"

text \<open>The set pixels of a binary image, in raster order.\<close>

definition fg_pixels :: "bool list list \<Rightarrow> pixel list" where
  "fg_pixels bimg =
     concat (map (\<lambda>i. map (\<lambda>j. (i, j)) (filter (\<lambda>j. bimg ! i ! j) [0..<length (bimg ! i)]))
       [0..<length bimg])"

text \<open>
  \<^verbatim>\<open>segmentation.clear_border(img_morph)\<close>: every connected component with a pixel in
  the first or last row or column is cleared.
\<close>

definition on_border :: "nat \<Rightarrow> nat \<Rightarrow> pixel \<Rightarrow> bool" where
  "on_border rows cols p = (fst p = 0 \<or> snd p = 0 \<or> Suc (fst p) = rows \<or> Suc (snd p) = cols)"

definition clear_border :: "bool list list \<Rightarrow> bool list list" where
  "clear_border bimg =
     (let comps = components (fg_pixels bimg);
          cleared = concat (filter (list_ex (on_border (shape0 bimg) (shape1 bimg))) comps)
      in map (\<lambda>i. map (\<lambda>j. bimg ! i ! j \<and> (i, j) \<notin> set cleared) [0..<length (bimg ! i)])
           [0..<length bimg])"

text \<open>
  \<^verbatim>\<open>measure.label(img_morph)\<close>: the label image, 0 for the background and \<open>k\<close> for the
  pixels of the \<open>k\<close>-th component.
\<close>

fun label_of :: "pixel list list \<Rightarrow> nat \<Rightarrow> pixel \<Rightarrow> nat" where
  "label_of [] k p = 0"
| "label_of (c # cs) k p = (if p \<in> set c then k else label_of cs (Suc k) p)"

definition measure_label :: "bool list list \<Rightarrow> nat list list" where
  "measure_label bimg =
     (let comps = components (fg_pixels bimg)
      in map (\<lambda>i. map (\<lambda>j. label_of comps 1 (i, j)) [0..<length (bimg ! i)])
           [0..<length bimg])"

text \<open>
  \<^verbatim>\<open>measure.regionprops(img_lab)\<close>: one region per label id from 1 to the largest label
  that occurs in the label image, in the order of the label ids. The region's pixels are
  the pixels that carry its label; \<open>area\<close> is their number and \<open>bbox\<close> is
  \<open>(min_row, min_col, max_row + 1, max_col + 1)\<close>.
\<close>

record region =
  label :: nat
  coords :: "pixel list"

definition area :: "region \<Rightarrow> nat" where
  "area reg = length (coords reg)"

definition bbox :: "region \<Rightarrow> bbox" where
  "bbox reg =
     (let is = map fst (coords reg); js = map snd (coords reg)
      in (fold min is (hd is), fold min js (hd js),
          Suc (fold max is (hd is)), Suc (fold max js (hd js))))"

definition coords_of :: "nat list list \<Rightarrow> nat \<Rightarrow> pixel list" where
  "coords_of img_lab l =
     concat (map (\<lambda>i. map (\<lambda>j. (i, j)) (filter (\<lambda>j. img_lab ! i ! j = l) [0..<length (img_lab ! i)]))
       [0..<length img_lab])"

definition regionprops :: "nat list list \<Rightarrow> region list" where
  "regionprops img_lab =
     (let n = fold max (concat img_lab) 0
      in filter (\<lambda>reg. coords reg \<noteq> [])
           (map (\<lambda>l. \<lparr>label = l, coords = coords_of img_lab l\<rparr>) [1..<Suc n]))"

text \<open>
  The notebook's global variables that the functions read. \<open>img_proc_np\<close> is assigned by
  the cell \<^verbatim>\<open>img_proc_np = np.array(img_proc)\<close> of the section on post processing; before
  that cell has run the name is not defined and reading it raises \<open>NameError\<close>.
\<close>

record notebook_globals =
  img_proc_np :: "image option"

text \<open>
  \<^verbatim>\<open>def find_bounding_boxes(img, perc_thresh=99, area_thresh=0.001, dilation_size=7)\<close>.
  The line \<^verbatim>\<open>area_thresh = img_proc_np.shape[0] * img_proc_np.shape[1] * area_thresh\<close>
  reads the global \<open>img_proc_np\<close>, not the function's own \<open>img_np\<close>.
\<close>

definition find_bounding_boxes ::
  "notebook_globals \<Rightarrow> image \<Rightarrow> real \<Rightarrow> real \<Rightarrow> int \<Rightarrow> py_error + bbox list" where
  "find_bounding_boxes globals img perc_thresh area_thresh dilation_size =
     (let img_np = img
      in if concat img_np = [] then Inl ValueError
         else case np_percentile (map (\<lambda>p. real (unat p)) (concat img_np)) perc_thresh of
           Inl e \<Rightarrow> Inl e
         | Inr thresh_val \<Rightarrow>
             let img_thresh = cv2_threshold_binary_u8 img_np (np_trunc thresh_val) 1;
                 img_thresh = map (map (\<lambda>v. 0 < v)) img_thresh
             in case binary_dilation img_thresh dilation_size of
                  Inl e \<Rightarrow> Inl e
                | Inr img_morph \<Rightarrow>
                    let img_morph = clear_border img_morph;
                        img_lab = measure_label img_morph;
                        regions = regionprops img_lab
                    in case img_proc_np globals of
                         None \<Rightarrow> Inl NameError
                       | Some g \<Rightarrow>
                           let area_thresh = real (shape0 g) * real (shape1 g) * area_thresh;
                               bboxes = map bbox (filter (\<lambda>reg. area_thresh \<le> real (area reg)) regions)
                           in Inr bboxes)"

text \<open>\<^verbatim>\<open>def ft_defect_detection(img, mag_thresh, perc_thresh, area_thresh, dilation_size)\<close>.\<close>

definition ft_defect_detection ::
  "(real list list \<Rightarrow> complex list list) \<Rightarrow> (complex list list \<Rightarrow> complex list list) \<Rightarrow>
   notebook_globals \<Rightarrow> image \<Rightarrow> real \<Rightarrow> real \<Rightarrow> real \<Rightarrow> int \<Rightarrow> py_error + bbox list" where
  "ft_defect_detection fft2 ifft2 globals img mag_thresh perc_thresh area_thresh dilation_size =
     (case ft_extract_anomalies fft2 ifft2 img mag_thresh of
        Inl e \<Rightarrow> Inl e
      | Inr img_proc \<Rightarrow>
          find_bounding_boxes globals img_proc perc_thresh area_thresh dilation_size)"

text \<open>
  The value of the source's variable \<open>regions\<close>, for stating what \<open>find_bounding_boxes\<close>
  returns; and the pixels a box encloses: \<open>(min_row, min_col, max_row, max_col)\<close> stands for
  the rows \<open>min_row \<le> i < max_row\<close> and the columns \<open>min_col \<le> j < max_col\<close>.
\<close>

definition regions_of :: "image \<Rightarrow> real \<Rightarrow> int \<Rightarrow> py_error + region list" where
  "regions_of img perc_thresh dilation_size =
     (if concat img = [] then Inl ValueError
      else case np_percentile (map (\<lambda>p. real (unat p)) (concat img)) perc_thresh of
        Inl e \<Rightarrow> Inl e
      | Inr thresh_val \<Rightarrow>
          (case binary_dilation
                  (map (map (\<lambda>v. 0 < v)) (cv2_threshold_binary_u8 img (np_trunc thresh_val) 1))
                  dilation_size of
             Inl e \<Rightarrow> Inl e
           | Inr img_morph \<Rightarrow> Inr (regionprops (measure_label (clear_border img_morph)))))"

fun inside_bbox :: "bbox \<Rightarrow> pixel \<Rightarrow> bool" where
  "inside_bbox (min_row, min_col, max_row, max_col) (i, j) =
     (min_row \<le> i \<and> i < max_row \<and> min_col \<le> j \<and> j < max_col)"

text \<open>A box is tight around a pixel list when each of its four sides is reached by a pixel.\<close>

fun tight_bbox :: "bbox \<Rightarrow> pixel list \<Rightarrow> bool" where
  "tight_bbox (min_row, min_col, max_row, max_col) ps =
     ((\<exists>p \<in> set ps. fst p = min_row) \<and> (\<exists>p \<in> set ps. snd p = min_col) \<and>
      (\<exists>p \<in> set ps. Suc (fst p) = max_row) \<and> (\<exists>p \<in> set ps. Suc (snd p) = max_col))"


text \<open>The 5 \<times> 5 test image of the examples: an L-shaped region and a single pixel.\<close>

definition img_L :: image where
  "img_L = [[0,   0,   0,   0, 0],
            [0, 255,   0, 255, 0],
            [0, 255,   0,   0, 0],
            [0, 255, 255, 255, 0],
            [0,   0,   0,   0, 0]]"

definition mask_L :: "bool list list" where
  "mask_L = [[False, False, False, False, False],
             [False, True,  False, True,  False],
             [False, True,  False, False, False],
             [False, True,  True,  True,  False],
             [False, False, False, False, False]]"

text \<open>
  An 11 \<times> 12 test image with four bright pixels, and what the dilation with a
  3 \<times> 3 structuring element makes of them: three squares that touch at their corners,
  and a fourth square apart from them.
\<close>

definition img_diag :: image where
  "img_diag =
    [[  0,   0,   0,   0,   0,   0,   0,   0,   0,   0,   0,   0],
     [  0,   0,   0,   0,   0,   0,   0,   0,   0,   0,   0,   0],
     [  0,   0, 255,   0,   0,   0,   0,   0,   0, 255,   0,   0],
     [  0,   0,   0,   0,   0,   0,   0,   0,   0,   0,   0,   0],
     [  0,   0,   0,   0,   0,   0,   0,   0,   0,   0,   0,   0],
     [  0,   0,   0,   0,   0, 255,   0,   0,   0,   0,   0,   0],
     [  0,   0,   0,   0,   0,   0,   0,   0,   0,   0,   0,   0],
     [  0,   0,   0,   0,   0,   0,   0,   0,   0,   0,   0,   0],
     [  0,   0,   0,   0,   0,   0,   0,   0, 255,   0,   0,   0],
     [  0,   0,   0,   0,   0,   0,   0,   0,   0,   0,   0,   0],
     [  0,   0,   0,   0,   0,   0,   0,   0,   0,   0,   0,   0]]"

definition morph_diag :: "bool list list" where
  "morph_diag =
    [[False, False, False, False, False, False, False, False, False, False, False, False],
     [False, True , True , True , False, False, False, False, True , True , True , False],
     [False, True , True , True , False, False, False, False, True , True , True , False],
     [False, True , True , True , False, False, False, False, True , True , True , False],
     [False, False, False, False, True , True , True , False, False, False, False, False],
     [False, False, False, False, True , True , True , False, False, False, False, False],
     [False, False, False, False, True , True , True , False, False, False, False, False],
     [False, False, False, False, False, False, False, True , True , True , False, False],
     [False, False, False, False, False, False, False, True , True , True , False, False],
     [False, False, False, False, False, False, False, True , True , True , False, False],
     [False, False, False, False, False, False, False, False, False, False, False, False]]"

section \<open>Properties of the PCA component cut\<close>

lemma length_cumsum_from: "length (cumsum_from acc xs) = length xs"
  by (induction xs arbitrary: acc) auto

lemma length_cumsum: "length (cumsum xs) = length xs"
  by (simp add: cumsum_def length_cumsum_from)

lemma argmax_from_True: "argmax_from True ib i xs = ib"
  by (induction xs arbitrary: i) auto

lemma argmax_from_no_True:
  "True \<notin> set xs \<Longrightarrow> argmax_from False ib i xs = ib"
  by (induction xs arbitrary: i) auto

lemma argmax_from_first_True:
  "True \<in> set xs \<Longrightarrow>
     \<exists>k<length xs. argmax_from False ib i xs = i + k \<and> xs ! k \<and> (\<forall>j<k. \<not> xs ! j)"
proof (induction xs arbitrary: i)
  case Nil
  then show ?case by simp
next
  case (Cons x xs)
  show ?case
  proof (cases x)
    case True
    then have "argmax_from False ib i (x # xs) = i + 0 \<and> (x # xs) ! 0 \<and>
                 (\<forall>j<0. \<not> (x # xs) ! j)"
      by (simp add: argmax_from_True)
    then show ?thesis by blast
  next
    case False
    with Cons.prems have "True \<in> set xs" by auto
    from Cons.IH [OF this, of "Suc i"] obtain k where k: "k < length xs"
      "argmax_from False ib (Suc i) xs = Suc i + k" "xs ! k" "\<forall>j<k. \<not> xs ! j"
      by blast
    have "\<forall>j<Suc k. \<not> (x # xs) ! j"
    proof (intro allI impI)
      fix j assume "j < Suc k"
      then show "\<not> (x # xs) ! j" using False k(4) by (cases j) auto
    qed
    with k False have "Suc k < length (x # xs) \<and>
        argmax_from False ib i (x # xs) = i + Suc k \<and> (x # xs) ! Suc k \<and>
        (\<forall>j<Suc k. \<not> (x # xs) ! j)"
      by simp
    then show ?thesis by blast
  qed
qed

lemma argmax_bool_first:
  assumes "True \<in> set bs"
  shows "\<exists>k<length bs. argmax bs = Inr k \<and> bs ! k \<and> (\<forall>j<k. \<not> bs ! j)"
proof (cases bs)
  case Nil
  with assms show ?thesis by simp
next
  case (Cons b bs')
  show ?thesis
  proof (cases b)
    case True
    with Cons have "0 < length bs \<and> argmax bs = Inr 0 \<and> bs ! 0 \<and> (\<forall>j<0. \<not> bs ! j)"
      by (simp add: argmax_from_True)
    then show ?thesis by blast
  next
    case False
    with assms Cons have "True \<in> set bs'" by auto
    from argmax_from_first_True [OF this, of 0 1] obtain k where k: "k < length bs'"
      "argmax_from False 0 1 bs' = 1 + k" "bs' ! k" "\<forall>j<k. \<not> bs' ! j"
      by blast
    have "\<forall>j<Suc k. \<not> bs ! j"
    proof (intro allI impI)
      fix j assume "j < Suc k"
      then show "\<not> bs ! j" using False Cons k(4) by (cases j) auto
    qed
    with k False Cons have "Suc k < length bs \<and> argmax bs = Inr (Suc k) \<and> bs ! Suc k \<and>
        (\<forall>j<Suc k. \<not> bs ! j)"
      by simp
    then show ?thesis by blast
  qed
qed

lemma argmax_bool_none:
  assumes "bs \<noteq> []" "True \<notin> set bs"
  shows "argmax bs = Inr 0"
  using assms by (cases bs) (auto simp: argmax_from_no_True)

text \<open>
  Claim C6, as amended. For a non-empty sequence of explained-variance ratios the cut point
  is an index of the sequence. When some cumulative explained variance is strictly greater
  than the threshold, the cut point is the first such index, so an index whose cumulative
  value equals the threshold exactly is passed over. When no cumulative value is strictly
  greater than the threshold, the comparison array is all \<open>False\<close> and \<open>argmax\<close> returns
  index 0.
\<close>

theorem i_comp_threshold_first_exceeding:
  assumes "explained_variance_ratio \<noteq> []"
  shows "\<exists>k. i_comp_threshold explained_variance_ratio t = Inr k \<and>
           k < length explained_variance_ratio \<and>
           (if \<exists>j<length explained_variance_ratio. t < cumsum explained_variance_ratio ! j
            then t < cumsum explained_variance_ratio ! k \<and>
                 (\<forall>j<k. cumsum explained_variance_ratio ! j \<le> t)
            else k = 0)"
proof -
  define vs where "vs = cumsum explained_variance_ratio"
  define bs where "bs = map (\<lambda>v. t < v) vs"
  have len: "length bs = length explained_variance_ratio" "length vs = length explained_variance_ratio"
    by (simp_all add: bs_def vs_def length_cumsum)
  have ne: "bs \<noteq> []" using assms len by auto
  have eq: "i_comp_threshold explained_variance_ratio t = argmax bs"
    by (simp add: i_comp_threshold_def bs_def vs_def)
  have nth: "\<And>j. j < length explained_variance_ratio \<Longrightarrow> bs ! j = (t < vs ! j)"
    using len by (simp add: bs_def)
  show ?thesis
  proof (cases "\<exists>j<length explained_variance_ratio. t < vs ! j")
    case True
    then obtain j where "j < length bs" "bs ! j" using nth len by auto
    then have "True \<in> set bs" by (metis nth_mem)
    from argmax_bool_first [OF this] obtain k where k: "k < length bs" "argmax bs = Inr k"
      "bs ! k" "\<forall>j<k. \<not> bs ! j" by blast
    have "t < vs ! k" using k nth len by simp
    moreover have "\<forall>j<k. vs ! j \<le> t"
    proof (intro allI impI)
      fix j assume "j < k"
      then have "\<not> bs ! j" "j < length explained_variance_ratio" using k len by auto
      then show "vs ! j \<le> t" using nth by auto
    qed
    ultimately show ?thesis using True k eq len unfolding vs_def by auto
  next
    case False
    then have "True \<notin> set bs" using nth len by (auto simp: in_set_conv_nth)
    then have "argmax bs = Inr 0" using ne by (rule argmax_bool_none [rotated])
    then show ?thesis using False eq assms unfolding vs_def by auto
  qed
qed


theorem i_comp_threshold_first_exceeding_witness:
  "[3/5, 2/5 :: real] \<noteq> [] \<and>
   (\<exists>k. i_comp_threshold [3/5, 2/5] (9/10) = Inr k \<and> k < 2 \<and>
        9/10 < cumsum [3/5, 2/5] ! k \<and> (\<forall>j<k. cumsum [3/5, 2/5] ! j \<le> 9/10))"
proof -
  have ne: "[3/5, 2/5 :: real] \<noteq> []" by simp
  have "(1::nat) < length [3/5, 2/5 :: real] \<and> 9/10 < cumsum [3/5, 2/5] ! 1"
    by (simp add: cumsum_def)
  then have ex: "\<exists>j<length [3/5, 2/5 :: real]. 9/10 < cumsum [3/5, 2/5] ! j"
    by blast
  from i_comp_threshold_first_exceeding [OF ne, of "9/10"] ex show ?thesis
    by auto
qed

text \<open>
  The claim as stated fails when no cumulative value exceeds the threshold: for the ratios
  \<open>[0.6, 0.4]\<close> and the threshold \<open>1.0\<close> the cumulative values are \<open>[0.6, 1.0]\<close>, none is
  strictly greater than \<open>1.0\<close>, and the cut point is index 0, where the cumulative variance
  \<open>0.6\<close> is not greater than the threshold.
\<close>

theorem i_comp_threshold_not_exceeding_counterexample:
  "i_comp_threshold [3/5, 2/5] 1 = Inr 0 \<and> \<not> (1 < cumsum [3/5, 2/5] ! 0)"
  by (simp add: i_comp_threshold_def cumsum_def)

section \<open>Properties of the Gaussian anomaly scorer\<close>













lemma length_vsub: "length x = n \<Longrightarrow> length y = n \<Longrightarrow> length (vsub x y) = n"
  by (simp add: vsub_def)
















lemma fl_add_NaN: "fl_add NaN y = NaN"
  by (simp add: fl_add_def np_overflow_def)




text \<open>
  The mean vector itself, a one-dimensional array, is not a batch: \<open>decision_function\<close>
  rejects it, as it rejects every array that is not two-dimensional.
\<close>

lemma decision_function_rejects_vector:
  assumes "ndim X \<noteq> 2"
  shows "decision_function self X = Inl AssertionError"
  using assms
  by (simp add: decision_function_def mahalanobis_distance_def split: option.splits)

text \<open>
  Claim C7. For a model with a fitted mean vector of dimension \<open>n\<close> and a stored precision
  matrix, a test array that is not two-dimensional or whose column count differs from
  \<open>n\<close>, or a precision matrix whose shape is not \<open>[n, n]\<close>, makes \<open>decision_function\<close>
  raise \<open>AssertionError\<close>: an error is the result and no score array is returned.
\<close>

theorem decision_function_rejects_shape_mismatch:
  assumes "mean self = Some mu" and "shape mu = [n]" and "lw_prec self = Some prec"
    and "ndim X \<noteq> 2 \<or> shape X ! 1 \<noteq> n \<or> shape prec \<noteq> [n, n]"
  shows "decision_function self X = Inl AssertionError"
proof -
  have eq: "decision_function self X = mahalanobis_distance X mu prec"
    using assms(1,3) by (simp add: decision_function_def)
  have last: "last (shape mu) = n" "ndim mu = 1"
    using assms(2) by (simp_all add: ndim_def)
  show ?thesis
  proof (cases "ndim X \<noteq> 2 \<or> shape X ! 1 \<noteq> n")
    case True
    then show ?thesis
      unfolding eq using last by (auto simp: mahalanobis_distance_def)
  next
    case False
    with assms(4) have ne: "shape prec \<noteq> [n, n]" by simp
    show ?thesis
    proof (cases "length (shape prec) = 2")
      case False
      then show ?thesis
        unfolding eq using last by (simp add: mahalanobis_distance_def)
    next
      case True
      then obtain a b where ab: "shape prec = [a, b]"
        by (cases "shape prec"; cases "tl (shape prec)") auto
      with ne have "a \<noteq> n \<or> b \<noteq> a" by auto
      then show ?thesis
        unfolding eq using last ab by (auto simp: mahalanobis_distance_def)
    qed
  qed
qed

theorem decision_function_rejects_shape_mismatch_witness:
  "decision_function \<lparr>mean = Some \<lparr>shape = [2], elems = [Fin 1, Fin 2]\<rparr>,
           lw_prec = Some \<lparr>shape = [2, 2], elems = [Fin 2, Fin (- 1), Fin (- 1), Fin 2]\<rparr>\<rparr>
      \<lparr>shape = [1, 3], elems = [Fin 1, Fin 2, Fin 3]\<rparr> = Inl AssertionError \<and>
   decision_function \<lparr>mean = Some \<lparr>shape = [2], elems = [Fin 1, Fin 2]\<rparr>,
           lw_prec = Some \<lparr>shape = [3, 3],
             elems = [Fin 1, Fin 0, Fin 0, Fin 0, Fin 1, Fin 0, Fin 0, Fin 0, Fin 1]\<rparr>\<rparr>
      \<lparr>shape = [1, 2], elems = [Fin 1, Fin 2]\<rparr> = Inl AssertionError"
proof -
  have a: "decision_function \<lparr>mean = Some \<lparr>shape = [2], elems = [Fin 1, Fin 2]\<rparr>,
           lw_prec = Some \<lparr>shape = [2, 2], elems = [Fin 2, Fin (- 1), Fin (- 1), Fin 2]\<rparr>\<rparr>
      \<lparr>shape = [1, 3], elems = [Fin 1, Fin 2, Fin 3]\<rparr> = Inl AssertionError"
    by (rule decision_function_rejects_shape_mismatch
          [where mu = "\<lparr>shape = [2], elems = [Fin 1, Fin 2]\<rparr>" and n = 2
             and prec = "\<lparr>shape = [2, 2], elems = [Fin 2, Fin (- 1), Fin (- 1), Fin 2]\<rparr>"])
      simp_all
  have b: "decision_function \<lparr>mean = Some \<lparr>shape = [2], elems = [Fin 1, Fin 2]\<rparr>,
           lw_prec = Some \<lparr>shape = [3, 3],
             elems = [Fin 1, Fin 0, Fin 0, Fin 0, Fin 1, Fin 0, Fin 0, Fin 0, Fin 1]\<rparr>\<rparr>
      \<lparr>shape = [1, 2], elems = [Fin 1, Fin 2]\<rparr> = Inl AssertionError"
    by (rule decision_function_rejects_shape_mismatch
          [where mu = "\<lparr>shape = [2], elems = [Fin 1, Fin 2]\<rparr>" and n = 2
             and prec = "\<lparr>shape = [3, 3],
               elems = [Fin 1, Fin 0, Fin 0, Fin 0, Fin 1, Fin 0, Fin 0, Fin 0, Fin 1]\<rparr>"])
      simp_all
  from a b show ?thesis by simp
qed

section \<open>Properties of the frequency-domain extraction\<close>

lemma np_le_iff_not_gt: "a \<noteq> NaN \<Longrightarrow> b \<noteq> NaN \<Longrightarrow> np_le a b = (\<not> np_gt a b)"
  by (cases a; cases b) auto

lemma np_gt_NaN_right [simp]: "np_gt a NaN = False"
  by (cases a) auto

lemma np_gt_PInf_right [simp]: "np_gt a PInf = False"
  by (cases a) auto

lemma np_not_gt_trans:
  "a \<noteq> NaN \<Longrightarrow> b \<noteq> NaN \<Longrightarrow> c \<noteq> NaN \<Longrightarrow> \<not> np_gt a b \<Longrightarrow> \<not> np_gt b c \<Longrightarrow> \<not> np_gt a c"
  by (cases a; cases b; cases c) auto

lemma np_not_gt_total: "a \<noteq> NaN \<Longrightarrow> b \<noteq> NaN \<Longrightarrow> np_gt a b \<Longrightarrow> \<not> np_gt b a"
  by (cases a; cases b) auto

lemma np_not_gt_refl: "\<not> np_gt a a"
  by (cases a) auto

lemma np_max2_NaN_left [simp]: "np_max2 NaN b = NaN" by simp
lemma np_max2_NaN_right [simp]: "np_max2 a NaN = NaN" by (cases a) auto
lemma np_min2_NaN_right [simp]: "np_min2 a NaN = NaN" by (cases a) auto

lemma np_max2_simp: "a \<noteq> NaN \<Longrightarrow> b \<noteq> NaN \<Longrightarrow> np_max2 a b = (if np_gt b a then b else a)"
  by (cases a; cases b) auto

lemma np_min2_simp: "a \<noteq> NaN \<Longrightarrow> b \<noteq> NaN \<Longrightarrow> np_min2 a b = (if np_gt a b then b else a)"
  by (cases a; cases b) auto

lemma foldl_np_max2_NaN: "foldl np_max2 NaN xs = NaN"
  by (induction xs) auto

lemma foldl_np_min2_NaN: "foldl np_min2 NaN xs = NaN"
  by (induction xs) auto

lemma foldl_np_max2_has_NaN: "NaN \<in> set xs \<Longrightarrow> foldl np_max2 acc xs = NaN"
  by (induction xs arbitrary: acc) (auto simp: foldl_np_max2_NaN)

lemma foldl_np_min2_has_NaN: "NaN \<in> set xs \<Longrightarrow> foldl np_min2 acc xs = NaN"
  by (induction xs arbitrary: acc) (auto simp: foldl_np_min2_NaN)

lemma foldl_np_max2_bound:
  "acc \<noteq> NaN \<Longrightarrow> NaN \<notin> set xs \<Longrightarrow>
     foldl np_max2 acc xs \<in> insert acc (set xs) \<and>
     (\<forall>y \<in> insert acc (set xs). \<not> np_gt y (foldl np_max2 acc xs))"
proof (induction xs arbitrary: acc)
  case Nil
  then show ?case by (simp add: np_not_gt_refl)
next
  case (Cons x xs)
  let ?a = "np_max2 acc x"
  let ?r = "foldl np_max2 ?a xs"
  have x: "x \<noteq> NaN" and xs: "NaN \<notin> set xs" using Cons.prems by auto
  have a: "?a = (if np_gt x acc then x else acc)"
    using Cons.prems(1) x by (rule np_max2_simp)
  then have a_ne: "?a \<noteq> NaN" using Cons.prems(1) x by auto
  from Cons.IH [OF a_ne xs] have mem: "?r \<in> insert ?a (set xs)"
    and ub: "\<forall>y \<in> insert ?a (set xs). \<not> np_gt y ?r" by auto
  have r_ne: "?r \<noteq> NaN" using mem a_ne xs by auto
  have ar: "\<not> np_gt ?a ?r" using ub by simp
  have "\<not> np_gt acc ?a" "\<not> np_gt x ?a"
    using a Cons.prems(1) x by (auto simp: np_not_gt_refl dest: np_not_gt_total)
  then have "\<not> np_gt acc ?r" "\<not> np_gt x ?r"
    using np_not_gt_trans [OF _ a_ne r_ne _ ar] Cons.prems(1) x by blast+
  moreover have "?r \<in> insert acc (set (x # xs))" using mem a by (auto split: if_splits)
  ultimately show ?case using ub by auto
qed

lemma foldl_np_min2_bound:
  "acc \<noteq> NaN \<Longrightarrow> NaN \<notin> set xs \<Longrightarrow>
     foldl np_min2 acc xs \<in> insert acc (set xs) \<and>
     (\<forall>y \<in> insert acc (set xs). \<not> np_gt (foldl np_min2 acc xs) y)"
proof (induction xs arbitrary: acc)
  case Nil
  then show ?case by (simp add: np_not_gt_refl)
next
  case (Cons x xs)
  let ?a = "np_min2 acc x"
  let ?r = "foldl np_min2 ?a xs"
  have x: "x \<noteq> NaN" and xs: "NaN \<notin> set xs" using Cons.prems by auto
  have a: "?a = (if np_gt acc x then x else acc)"
    using Cons.prems(1) x by (rule np_min2_simp)
  then have a_ne: "?a \<noteq> NaN" using Cons.prems(1) x by auto
  from Cons.IH [OF a_ne xs] have mem: "?r \<in> insert ?a (set xs)"
    and lb: "\<forall>y \<in> insert ?a (set xs). \<not> np_gt ?r y" by auto
  have r_ne: "?r \<noteq> NaN" using mem a_ne xs by auto
  have ra: "\<not> np_gt ?r ?a" using lb by simp
  have "\<not> np_gt ?a acc" "\<not> np_gt ?a x"
    using a Cons.prems(1) x by (auto simp: np_not_gt_refl dest: np_not_gt_total)
  then have "\<not> np_gt ?r acc" "\<not> np_gt ?r x"
    using np_not_gt_trans [OF r_ne a_ne _ ra] Cons.prems(1) x by blast+
  moreover have "?r \<in> insert acc (set (x # xs))" using mem a by (auto split: if_splits)
  ultimately show ?case using lb by auto
qed

text \<open>The threshold is a finite number between finite extremes, or it admits no entry.\<close>

lemma thresh_val_of_cases:
  assumes "thresh_val_of mag_img t = Inr th" and "0 \<le> t"
  shows "(\<exists>a b. a \<le> b \<and> th = Fin (a + t * (b - a)) \<and>
            np_min (concat mag_img) = Inr (Fin a) \<and> np_max (concat mag_img) = Inr (Fin b))
         \<or> ((th = NaN \<or> th = PInf) \<and>
             (\<forall>a b. \<not> (np_min (concat mag_img) = Inr (Fin a) \<and> np_max (concat mag_img) = Inr (Fin b))))"
proof (cases "concat mag_img")
  case Nil
  with assms show ?thesis by (simp add: thresh_val_of_def)
next
  case (Cons x xs)
  define mx where "mx = foldl np_max2 x xs"
  define mn where "mn = foldl np_min2 x xs"
  have th: "th = np_add mn (np_mul (Fin t) (np_sub mx mn))"
    using assms(1) Cons by (simp add: thresh_val_of_def mx_def mn_def)
  have mm: "np_min (concat mag_img) = Inr mn" "np_max (concat mag_img) = Inr mx"
    using Cons by (simp_all add: mx_def mn_def)
  show ?thesis
  proof (cases "NaN \<in> set (x # xs)")
    case True
    then have "mx = NaN" "mn = NaN"
      unfolding mx_def mn_def
      by (auto simp: foldl_np_max2_has_NaN foldl_np_min2_has_NaN foldl_np_max2_NaN foldl_np_min2_NaN)
    then show ?thesis using th mm by simp
  next
    case False
    then have x: "x \<noteq> NaN" and xs: "NaN \<notin> set xs" by auto
    from foldl_np_max2_bound [OF x xs] have mx_mem: "mx \<in> set (x # xs)"
      and ub: "\<forall>y \<in> set (x # xs). \<not> np_gt y mx" by (auto simp: mx_def)
    from foldl_np_min2_bound [OF x xs] have mn_mem: "mn \<in> set (x # xs)" by (auto simp: mn_def)
    have le: "\<not> np_gt mn mx" using ub mn_mem by blast
    have ne: "mx \<noteq> NaN" "mn \<noteq> NaN" using mx_mem mn_mem False by auto
    show ?thesis
      using th mm le ne assms(2)
      by (cases mn; cases mx) (auto simp: np_sub_def)
  qed
qed

lemma count_true_mask:
  "count_true (mag_img_mask_of mag_img th) = length (filter (\<lambda>m. np_gt m th) (concat mag_img))"
proof -
  have "mag_img_mask_of mag_img th = map (map (\<lambda>m. np_gt m th)) mag_img"
    by (simp add: mag_img_mask_of_def astype_bool_def cv2_threshold_binary_def comp_def)
  then show ?thesis
    by (simp add: count_true_def map_concat [symmetric] length_filter_map comp_def)
qed

lemma length_filter_mono:
  "(\<And>x. x \<in> set xs \<Longrightarrow> P x \<Longrightarrow> Q x) \<Longrightarrow> length (filter P xs) \<le> length (filter Q xs)"
  by (induction xs) auto

lemma np_gt_Fin_mono: "x1 \<le> x2 \<Longrightarrow> np_gt m (Fin x2) \<Longrightarrow> np_gt m (Fin x1)"
  by (cases m) auto

text \<open>
  Claim C4. For every log-magnitude array (so for the spectrum of every input image) and
  every pair of magnitude thresholds \<open>0 \<le> t1 \<le> t2 \<le> 1\<close>, the mask computed with \<open>t2\<close> has
  no more true entries than the mask computed with \<open>t1\<close>.
\<close>

theorem mag_img_mask_monotone:
  assumes "0 \<le> t1" and "t1 \<le> t2" and "t2 \<le> 1"
    and "thresh_val_of mag_img t1 = Inr th1" and "thresh_val_of mag_img t2 = Inr th2"
  shows "count_true (mag_img_mask_of mag_img th2) \<le> count_true (mag_img_mask_of mag_img th1)"
proof -
  have t2: "0 \<le> t2" using assms(1,2) by simp
  from thresh_val_of_cases [OF assms(5) t2]
  show ?thesis
  proof
    assume "\<exists>a b. a \<le> b \<and> th2 = Fin (a + t2 * (b - a)) \<and>
       np_min (concat mag_img) = Inr (Fin a) \<and> np_max (concat mag_img) = Inr (Fin b)"
    then obtain a b where ab: "a \<le> b" "th2 = Fin (a + t2 * (b - a))"
      "np_min (concat mag_img) = Inr (Fin a)" "np_max (concat mag_img) = Inr (Fin b)" by blast
    from thresh_val_of_cases [OF assms(4) assms(1)] ab(3,4)
    have th1: "th1 = Fin (a + t1 * (b - a))" by auto
    have "t1 * (b - a) \<le> t2 * (b - a)"
      using assms(2) ab(1) by (simp add: mult_right_mono)
    then have "a + t1 * (b - a) \<le> a + t2 * (b - a)" by simp
    then show ?thesis
      unfolding count_true_mask ab(2) th1
      by (intro length_filter_mono) (rule np_gt_Fin_mono)
  next
    assume "(th2 = NaN \<or> th2 = PInf) \<and>
       (\<forall>a b. \<not> (np_min (concat mag_img) = Inr (Fin a) \<and> np_max (concat mag_img) = Inr (Fin b)))"
    then have "count_true (mag_img_mask_of mag_img th2) = 0"
      unfolding count_true_mask by auto
    then show ?thesis by simp
  qed
qed

theorem mag_img_mask_monotone_witness:
  "(0::real) \<le> 1/4 \<and> (1/4::real) \<le> 3/4 \<and> (3/4::real) \<le> 1 \<and>
   thresh_val_of [[Fin 0, Fin 1, Fin 2]] (1/4) = Inr (Fin (1/2)) \<and>
   thresh_val_of [[Fin 0, Fin 1, Fin 2]] (3/4) = Inr (Fin (3/2)) \<and>
   count_true (mag_img_mask_of [[Fin 0, Fin 1, Fin 2]] (Fin (3/2)))
     \<le> count_true (mag_img_mask_of [[Fin 0, Fin 1, Fin 2]] (Fin (1/2)))"
proof -
  have h1: "thresh_val_of [[Fin 0, Fin 1, Fin 2]] (1/4) = Inr (Fin (1/2))"
    by (simp add: thresh_val_of_def np_sub_def)
  have h2: "thresh_val_of [[Fin 0, Fin 1, Fin 2]] (3/4) = Inr (Fin (3/2))"
    by (simp add: thresh_val_of_def np_sub_def)
  have c: "count_true (mag_img_mask_of [[Fin 0, Fin 1, Fin 2]] (Fin (3/2)))
     \<le> count_true (mag_img_mask_of [[Fin 0, Fin 1, Fin 2]] (Fin (1/2)))"
    by (rule mag_img_mask_monotone [OF _ _ _ h1 h2]) simp_all
  show ?thesis
    by (intro conjI h1 h2 c) simp_all
qed

lemma map2_map_same: "map2 f xs (map g xs) = map (\<lambda>x. f x (g x)) xs"
  by (induction xs) auto

lemma map2_map2_same:
  "map2 (map2 f) m (map (map k) m) = map (map (\<lambda>z. f z (k z))) m"
  by (induction m) (simp_all add: map2_map_same)

lemma fshift_proc_of_pointwise:
  "fshift_proc_of fshift th =
     map (map (\<lambda>z. if np_gt (np_log (cmod z)) th then 0 else z)) fshift"
proof -
  have "fshift_proc_of fshift th =
          map2 (map2 (\<lambda>z b. z * (if b then 1 else 0))) fshift
            (map (map (\<lambda>z. \<not> np_gt (np_log (cmod z)) th)) fshift)"
    by (simp add: fshift_proc_of_def mul_mask_def mag_img_mask_of_def astype_bool_def
        cv2_threshold_binary_def mag_img_of_def comp_def)
  also have "\<dots> = map (map (\<lambda>z. z * (if \<not> np_gt (np_log (cmod z)) th then 1 else 0))) fshift"
    by (rule map2_map2_same)
  also have "\<dots> = map (map (\<lambda>z. if np_gt (np_log (cmod z)) th then 0 else z)) fshift"
    by (intro map_cong refl) simp
  finally show ?thesis .
qed

lemma ft_extract_anomalies_stages:
  "ft_extract_anomalies fft2 ifft2 img mag_thresh =
     (if concat img = [] then Inl ValueError
      else case thresh_val_of (mag_img_of (fshift_of fft2 img)) mag_thresh of
             Inl e \<Rightarrow> Inl e
           | Inr thresh_val \<Rightarrow>
               Inr (map (map (\<lambda>x. astype_uint8 (x * 255)))
                      (img_proc_abs_of ifft2 (fshift_proc_of (fshift_of fft2 img) thresh_val))))"
  by (simp add: ft_extract_anomalies_def fshift_of_def fshift_proc_of_def img_proc_abs_of_def
      Let_def map_concat [symmetric] split: sum.splits)

lemma concat_nonempty_iff: "concat m \<noteq> [] \<longleftrightarrow> (\<exists>r \<in> set m. r \<noteq> [])"
  by (induction m) auto

lemma concat_fftshift_nonempty: "concat m \<noteq> [] \<Longrightarrow> concat (fftshift m) \<noteq> []"
  by (auto simp: concat_nonempty_iff fftshift_def fftshift1_def)

lemma concat_mag_img_nonempty: "concat m \<noteq> [] \<Longrightarrow> concat (mag_img_of m) \<noteq> []"
  by (auto simp: concat_nonempty_iff mag_img_of_def)

lemma unat_astype_uint8:
  assumes "0 \<le> x"
  shows "unat (astype_uint8 x) = nat \<lfloor>x\<rfloor> mod 256"
proof -
  have fl: "0 \<le> \<lfloor>x\<rfloor>" using assms by simp
  have "unat (astype_uint8 x) = nat (uint (word_of_int \<lfloor>x\<rfloor> :: 8 word))"
    using assms by (simp add: astype_uint8_def np_trunc_def)
  also have "\<dots> = nat (\<lfloor>x\<rfloor> mod 256)"
    by (simp add: uint_word_of_int)
  also have "\<dots> = nat \<lfloor>x\<rfloor> mod nat 256"
    using fl by (rule nat_mod_distrib) simp
  finally show ?thesis by simp
qed

lemma np_log_cmod_not_NaN: "np_log (cmod z) \<noteq> NaN"
  by (simp add: np_log_def)

lemma np_max_nonempty: "xs \<noteq> [] \<Longrightarrow> \<exists>v. np_max xs = Inr v"
  by (cases xs) auto

lemma np_min_nonempty: "xs \<noteq> [] \<Longrightarrow> \<exists>v. np_min xs = Inr v"
  by (cases xs) auto

lemma set_concat_fftshift: "set (concat (fftshift m)) = set (concat m)"
  by (auto simp: fftshift_def fftshift1_def)

lemma mag_img_of_no_NaN: "NaN \<notin> set (concat (mag_img_of fshift))"
  by (auto simp: mag_img_of_def np_log_def)

lemma mag_img_of_no_PInf: "PInf \<notin> set (concat (mag_img_of fshift))"
  by (auto simp: mag_img_of_def np_log_def)

lemma mag_img_of_zero_entry:
  "0 \<in> set (concat fshift) \<Longrightarrow> NInf \<in> set (concat (mag_img_of fshift))"
  by (force simp: mag_img_of_def np_log_def)

lemma thresh_val_of_zero_entry:
  assumes "0 \<in> set (concat fshift)" and "0 \<le> mag_thresh"
  shows "thresh_val_of (mag_img_of fshift) mag_thresh = Inr NaN"
proof -
  let ?xs = "concat (mag_img_of fshift)"
  have ninf: "NInf \<in> set ?xs" using assms(1) by (rule mag_img_of_zero_entry)
  then obtain x xs where xs: "?xs = x # xs" by (cases ?xs) auto
  have nn: "x \<noteq> NaN" "NaN \<notin> set xs"
    using mag_img_of_no_NaN [of fshift] xs by auto
  define mn where "mn = foldl np_min2 x xs"
  define mx where "mx = foldl np_max2 x xs"
  from foldl_np_min2_bound [OF nn] have mn_mem: "mn \<in> set (x # xs)"
    and lb: "\<forall>y \<in> set (x # xs). \<not> np_gt mn y" by (auto simp: mn_def)
  from foldl_np_max2_bound [OF nn] have mx_mem: "mx \<in> set (x # xs)" by (auto simp: mx_def)
  have "\<not> np_gt mn NInf" using lb ninf xs by auto
  moreover have "mn \<noteq> NaN" "mx \<noteq> NaN" using mn_mem mx_mem nn by auto
  moreover have "mx \<noteq> PInf"
    using mx_mem xs mag_img_of_no_PInf [of fshift] by auto
  ultimately have "np_add mn (np_mul (Fin mag_thresh) (np_sub mx mn)) = NaN"
    using assms(2) by (cases mn; cases mx) (auto simp: np_sub_def)
  then show ?thesis
    by (simp add: thresh_val_of_def xs mn_def mx_def)
qed

lemma fshift_proc_of_NaN: "fshift_proc_of fshift NaN = fshift"
  by (simp add: fshift_proc_of_pointwise map_idI)

lemma cis_neg_pi: "cis (- pi) = - 1"
  by (simp add: complex_eq_iff)

lemma upt_2: "[0..<2] = [0, 1]"
  by (simp add: upt_rec)

lemma dft2_2x2:
  "dft2 [[a, b], [c, d]] =
     [[complex_of_real (a + b + c + d), complex_of_real (a - b + c - d)],
      [complex_of_real (a + b - c - d), complex_of_real (a - b - c + d)]]"
  by (simp add: dft2_def shape0_def shape1_def upt_2 cis_neg_pi complex_eq_iff)

lemma idft2_2x2:
  "idft2 [[a, b], [c, d]] =
     [[(a + b + c + d) / 4, (a - b + c - d) / 4],
      [(a + b - c - d) / 4, (a - b - c + d) / 4]]"
  by (simp add: idft2_def shape0_def shape1_def upt_2 cis_neg_pi complex_eq_iff)

lemma fftshift1_nth:
  assumes "i < length xs"
  shows "fftshift1 xs ! ((i + length xs div 2) mod length xs) = xs ! i"
proof -
  let ?n = "length xs"
  have n: "0 < ?n" using assms by (cases xs) simp_all
  have "fftshift1 xs ! ((i + ?n div 2) mod ?n) =
          xs ! ((?n - ?n div 2 + (i + ?n div 2) mod ?n) mod ?n)"
    unfolding fftshift1_def using n by (auto simp: nth_rotate)
  also have "(?n - ?n div 2 + (i + ?n div 2) mod ?n) mod ?n = (?n - ?n div 2 + (i + ?n div 2)) mod ?n"
    by (rule mod_add_right_eq)
  also have "?n - ?n div 2 + (i + ?n div 2) = i + ?n" by simp
  also have "(i + ?n) mod ?n = i" using assms by simp
  finally show ?thesis .
qed

lemma length_fftshift1 [simp]: "length (fftshift1 xs) = length xs"
  by (simp add: fftshift1_def)

lemma length_fftshift: "length (fftshift m) = length m"
  by (simp add: fftshift_def)

lemma fftshift_row:
  assumes "i < length m"
  shows "fftshift m ! ((i + length m div 2) mod length m) = fftshift1 (m ! i)"
proof -
  have "fftshift m ! ((i + length m div 2) mod length m) = map fftshift1 m ! i"
    unfolding fftshift_def using fftshift1_nth [of i "map fftshift1 m"] assms by simp
  also have "\<dots> = fftshift1 (m ! i)" using assms by simp
  finally show ?thesis .
qed

lemma length_fftshift_row:
  assumes "i < length m"
  shows "length (fftshift m ! ((i + length m div 2) mod length m)) = length (m ! i)"
  by (simp add: fftshift_row [OF assms])

lemma fftshift_nth:
  assumes "i < length m" and "j < length (m ! i)"
  shows "fftshift m ! ((i + length m div 2) mod length m)
                  ! ((j + length (m ! i) div 2) mod length (m ! i)) = m ! i ! j"
  using fftshift1_nth [OF assms(2)] by (simp add: fftshift_row [OF assms(1)])

lemma ifftshift1_fftshift1: "ifftshift1 (fftshift1 xs) = xs"
  by (simp add: ifftshift1_def fftshift1_def rotate_rotate)

lemma ifftshift_fftshift: "ifftshift (fftshift m) = m"
proof -
  have "map ifftshift1 (fftshift1 (map fftshift1 m)) = fftshift1 (map ifftshift1 (map fftshift1 m))"
    by (simp add: fftshift1_def rotate_map)
  also have "\<dots> = fftshift1 m"
    by (simp add: ifftshift1_fftshift1 comp_def)
  finally show ?thesis
    by (simp add: ifftshift_def fftshift_def ifftshift1_fftshift1)
qed

lemma mag_img_of_all_Fin:
  assumes "0 \<notin> set (concat fshift)" and "v \<in> set (concat (mag_img_of fshift))"
  shows "\<exists>r. v = Fin r"
  using assms by (auto simp: mag_img_of_def np_log_def)

lemma thresh_val_of_no_zero_entry:
  assumes "0 \<notin> set (concat fshift)" and "concat fshift \<noteq> []"
  shows "\<exists>r. thresh_val_of (mag_img_of fshift) mag_thresh = Inr (Fin r)"
proof -
  let ?xs = "concat (mag_img_of fshift)"
  have "?xs \<noteq> []" using assms(2) by (rule concat_mag_img_nonempty)
  then obtain x xs where xs: "?xs = x # xs" by (cases ?xs) auto
  have nn: "x \<noteq> NaN" "NaN \<notin> set xs"
    using mag_img_of_no_NaN [of fshift] xs by auto
  define mn where "mn = foldl np_min2 x xs"
  define mx where "mx = foldl np_max2 x xs"
  from foldl_np_min2_bound [OF nn] have "mn \<in> set ?xs" by (auto simp: mn_def xs)
  then obtain a where a: "mn = Fin a" using mag_img_of_all_Fin [OF assms(1)] by blast
  from foldl_np_max2_bound [OF nn] have "mx \<in> set ?xs" by (auto simp: mx_def xs)
  then obtain b where b: "mx = Fin b" using mag_img_of_all_Fin [OF assms(1)] by blast
  have "thresh_val_of (mag_img_of fshift) mag_thresh = Inr (Fin (a + mag_thresh * (b - a)))"
    by (simp add: thresh_val_of_def xs mn_def [symmetric] mx_def [symmetric] a b np_sub_def)
  then show ?thesis by blast
qed

text \<open>
  Claim C5, as amended. For every single-channel image with at least one pixel (whose
  transform has an entry, as scipy's has) and every magnitude threshold,
  \<open>ft_extract_anomalies\<close> returns, and what it returns is built as follows. The spectrum is
  the centre-shifted 2D FFT of the image scaled to \<open>[0, 1]\<close>: entry \<open>(i, j)\<close> of the
  transform is entry \<open>((i + M div 2) mod M, (j + N div 2) mod N)\<close> of the shifted spectrum, and
  the inverse shift undoes the shift. The threshold value is \<open>min + mag_thresh * (max - min)\<close>
  of the log-magnitudes. Every spectrum entry whose log-magnitude exceeds the threshold value
  is set to 0 and every other entry is kept. When no entry of the transform is exactly 0 the
  threshold value is a finite number, and whenever it is not \<open>nan\<close> exactly the entries with
  log-magnitude at or below it are kept. When an entry of the transform is exactly 0 and
  \<open>mag_thresh\<close> is not negative, the threshold value is \<open>nan\<close> and every entry is kept,
  though no log-magnitude is at or below \<open>nan\<close>. The result is the magnitude of the inverse
  FFT of the inverse-shifted masked spectrum, times 255 as 8-bit pixels.
\<close>

theorem ft_extract_anomalies_masks_spectrum:
  assumes "concat img \<noteq> []"
    and "concat (fft2 (map (map (\<lambda>p. real (unat p) / 255)) img)) \<noteq> []"
  shows "\<exists>f fshift max_val min_val thresh_val fshift_proc.
      f = fft2 (map (map (\<lambda>p. real (unat p) / 255)) img) \<and>
      fshift = fshift_of fft2 img \<and>
      length fshift = length f \<and>
      (\<forall>i<length f. length (fshift ! ((i + length f div 2) mod length f)) = length (f ! i)) \<and>
      (\<forall>i<length f. \<forall>j<length (f ! i).
         fshift ! ((i + length f div 2) mod length f)
                ! ((j + length (f ! i) div 2) mod length (f ! i)) = f ! i ! j) \<and>
      ifftshift fshift = f \<and>
      np_max (concat (mag_img_of fshift)) = Inr max_val \<and>
      np_min (concat (mag_img_of fshift)) = Inr min_val \<and>
      thresh_val = np_add min_val (np_mul (Fin mag_thresh) (np_sub max_val min_val)) \<and>
      fshift_proc = map (map (\<lambda>z. if np_gt (np_log (cmod z)) thresh_val then 0 else z)) fshift \<and>
      (0 \<notin> set (concat f) \<longrightarrow> (\<exists>r. thresh_val = Fin r)) \<and>
      (thresh_val \<noteq> NaN \<longrightarrow>
         fshift_proc = map (map (\<lambda>z. if np_le (np_log (cmod z)) thresh_val then z else 0)) fshift) \<and>
      (0 \<in> set (concat f) \<and> 0 \<le> mag_thresh \<longrightarrow> thresh_val = NaN \<and> fshift_proc = fshift) \<and>
      ft_extract_anomalies fft2 ifft2 img mag_thresh =
        Inr (map (map (\<lambda>z. astype_uint8 (cmod z * 255))) (ifft2 (ifftshift fshift_proc)))"
proof -
  define f where "f = fft2 (map (map (\<lambda>p. real (unat p) / 255)) img)"
  define fshift where "fshift = fshift_of fft2 img"
  have fs: "fshift = fftshift f" by (simp add: fshift_def f_def fshift_of_def)
  have len: "length fshift = length f" unfolding fs by (rule length_fftshift)
  have rowlen: "\<forall>i<length f. length (fshift ! ((i + length f div 2) mod length f)) = length (f ! i)"
    unfolding fs by (intro allI impI length_fftshift_row)
  have nth: "\<forall>i<length f. \<forall>j<length (f ! i).
         fshift ! ((i + length f div 2) mod length f)
                ! ((j + length (f ! i) div 2) mod length (f ! i)) = f ! i ! j"
    unfolding fs by (intro allI impI fftshift_nth)
  have inv: "ifftshift fshift = f" unfolding fs by (rule ifftshift_fftshift)
  have nef: "concat fshift \<noteq> []"
    unfolding fs using assms(2) by (intro concat_fftshift_nonempty) (simp add: f_def)
  have ne: "concat (mag_img_of fshift) \<noteq> []"
    by (intro concat_mag_img_nonempty nef)
  from np_max_nonempty [OF ne] obtain max_val
    where mx: "np_max (concat (mag_img_of fshift)) = Inr max_val" by blast
  from np_min_nonempty [OF ne] obtain min_val
    where mn: "np_min (concat (mag_img_of fshift)) = Inr min_val" by blast
  define thresh_val where "thresh_val = np_add min_val (np_mul (Fin mag_thresh) (np_sub max_val min_val))"
  define fshift_proc where "fshift_proc = fshift_proc_of fshift thresh_val"
  have th: "thresh_val_of (mag_img_of fshift) mag_thresh = Inr thresh_val"
    by (simp add: thresh_val_of_def mx mn thresh_val_def)
  have gt: "fshift_proc = map (map (\<lambda>z. if np_gt (np_log (cmod z)) thresh_val then 0 else z)) fshift"
    by (simp add: fshift_proc_def fshift_proc_of_pointwise)
  have zs: "set (concat fshift) = set (concat f)"
    unfolding fs by (rule set_concat_fftshift)
  have fin: "\<exists>r. thresh_val = Fin r" if "0 \<notin> set (concat f)"
  proof -
    from that zs have "0 \<notin> set (concat fshift)" by simp
    from thresh_val_of_no_zero_entry [OF this nef, of mag_thresh] th
    show ?thesis by auto
  qed
  have le: "fshift_proc = map (map (\<lambda>z. if np_le (np_log (cmod z)) thresh_val then z else 0)) fshift"
    if "thresh_val \<noteq> NaN"
    unfolding gt using that by (simp add: np_le_iff_not_gt np_log_cmod_not_NaN)
  have nan: "thresh_val = NaN \<and> fshift_proc = fshift"
    if "0 \<in> set (concat f) \<and> 0 \<le> mag_thresh"
  proof -
    from that zs have "0 \<in> set (concat fshift)" "0 \<le> mag_thresh" by simp_all
    from thresh_val_of_zero_entry [OF this] th have "thresh_val = NaN" by simp
    then show ?thesis by (simp add: fshift_proc_def fshift_proc_of_NaN)
  qed
  have res: "ft_extract_anomalies fft2 ifft2 img mag_thresh =
        Inr (map (map (\<lambda>z. astype_uint8 (cmod z * 255))) (ifft2 (ifftshift fshift_proc)))"
    using assms(1) th
    by (simp add: ft_extract_anomalies_stages fshift_def [symmetric] fshift_proc_def
        img_proc_abs_of_def comp_def)
  show ?thesis
    using f_def fshift_def len rowlen nth inv mx mn thresh_val_def gt fin le nan res by blast
qed


lemma ft_1x1: "ft_extract_anomalies (map (map complex_of_real)) (\<lambda>m. m) [[200]] (1/2) = Inr [[200]]"
  by (simp add: ft_extract_anomalies_def fftshift_def fftshift1_def ifftshift_def ifftshift1_def
      mag_img_of_def thresh_val_of_def np_log_def np_sub_def mag_img_mask_of_def astype_bool_def
      cv2_threshold_binary_def mul_mask_def astype_uint8_def np_trunc_def)

lemma fftshift_2x2: "fftshift [[a, b], [c, d]] = [[d, c], [b, a]]"
  by (simp add: fftshift_def fftshift1_def)

lemma ifftshift_2x2: "ifftshift [[a, b], [c, d]] = [[d, c], [b, a]]"
  by (simp add: ifftshift_def ifftshift1_def)

lemma fshift_of_dft2_masked:
  "fshift_of dft2 [[255, 255], [255, 0]] = [[- 1, 1], [1, 3]]"
  by (simp add: fshift_of_def dft2_2x2 fftshift_2x2)

lemma thresh_val_of_dft2_masked:
  "thresh_val_of (mag_img_of [[- 1, 1], [1, 3]]) (1/2) = Inr (Fin (ln 3 / 2))"
  by (simp add: thresh_val_of_def mag_img_of_def np_log_def np_sub_def)

lemma fshift_proc_of_dft2_masked:
  "fshift_proc_of [[- 1, 1], [1, 3]] (Fin (ln 3 / 2)) = [[- 1, 1], [1, 0]]"
  by (simp add: fshift_proc_of_pointwise np_log_def)

lemma ft_extract_anomalies_dft2_masked:
  "ft_extract_anomalies dft2 idft2 [[255, 255], [255, 0]] (1/2) = Inr [[63, 63], [63, 191]]"
proof -
  have "img_proc_abs_of idft2 [[- 1, 1], [1, 0]] = [[1/4, 1/4], [1/4, 3/4]]"
    by (simp add: img_proc_abs_of_def ifftshift_2x2 idft2_2x2 norm_divide)
  then show ?thesis
    by (simp add: ft_extract_anomalies_stages fshift_of_dft2_masked thresh_val_of_dft2_masked
        fshift_proc_of_dft2_masked astype_uint8_def np_trunc_def)
qed

lemma fshift_of_dft2_constant:
  "fshift_of dft2 [[255, 255], [255, 255]] = [[0, 0], [0, 4]]"
  by (simp add: fshift_of_def dft2_2x2 fftshift_2x2)

lemma ft_extract_anomalies_dft2_constant:
  "ft_extract_anomalies dft2 idft2 [[255, 255], [255, 255]] (1/2) = Inr [[255, 255], [255, 255]]"
proof -
  have z: "0 \<in> set (concat [[0, 0], [0, 4 :: complex]])" by simp
  have th: "thresh_val_of (mag_img_of [[0, 0], [0, 4]]) (1/2) = Inr NaN"
    by (rule thresh_val_of_zero_entry [OF z]) simp
  have "img_proc_abs_of idft2 [[0, 0], [0, 4]] = [[1, 1], [1, 1]]"
    by (simp add: img_proc_abs_of_def ifftshift_2x2 idft2_2x2)
  then show ?thesis
    by (simp add: ft_extract_anomalies_stages fshift_of_dft2_constant th
        fshift_proc_of_NaN astype_uint8_def np_trunc_def)
qed

theorem ft_extract_anomalies_masks_spectrum_witness:
  "concat [[255, 255], [255, 0 :: 8 word]] \<noteq> [] \<and>
   concat (dft2 (map (map (\<lambda>p. real (unat p) / 255)) [[255, 255], [255, 0 :: 8 word]])) \<noteq> [] \<and>
   (\<exists>f fshift max_val min_val thresh_val fshift_proc.
      f = dft2 (map (map (\<lambda>p. real (unat p) / 255)) [[255, 255], [255, 0 :: 8 word]]) \<and>
      fshift = fshift_of dft2 [[255, 255], [255, 0]] \<and>
      length fshift = length f \<and>
      (\<forall>i<length f. length (fshift ! ((i + length f div 2) mod length f)) = length (f ! i)) \<and>
      (\<forall>i<length f. \<forall>j<length (f ! i).
         fshift ! ((i + length f div 2) mod length f)
                ! ((j + length (f ! i) div 2) mod length (f ! i)) = f ! i ! j) \<and>
      ifftshift fshift = f \<and>
      np_max (concat (mag_img_of fshift)) = Inr max_val \<and>
      np_min (concat (mag_img_of fshift)) = Inr min_val \<and>
      thresh_val = np_add min_val (np_mul (Fin (1/2)) (np_sub max_val min_val)) \<and>
      fshift_proc = map (map (\<lambda>z. if np_gt (np_log (cmod z)) thresh_val then 0 else z)) fshift \<and>
      (0 \<notin> set (concat f) \<longrightarrow> (\<exists>r. thresh_val = Fin r)) \<and>
      (thresh_val \<noteq> NaN \<longrightarrow>
         fshift_proc = map (map (\<lambda>z. if np_le (np_log (cmod z)) thresh_val then z else 0)) fshift) \<and>
      (0 \<in> set (concat f) \<and> 0 \<le> (1/2 :: real) \<longrightarrow> thresh_val = NaN \<and> fshift_proc = fshift) \<and>
      ft_extract_anomalies dft2 idft2 [[255, 255], [255, 0]] (1/2) =
        Inr (map (map (\<lambda>z. astype_uint8 (cmod z * 255))) (idft2 (ifftshift fshift_proc)))) \<and>
   fshift_of dft2 [[255, 255], [255, 0]] = [[- 1, 1], [1, 3]] \<and>
   fshift_proc_of (fshift_of dft2 [[255, 255], [255, 0]]) (Fin (ln 3 / 2)) = [[- 1, 1], [1, 0]] \<and>
   ft_extract_anomalies dft2 idft2 [[255, 255], [255, 0]] (1/2) = Inr [[63, 63], [63, 191]]"
proof -
  have h1: "concat [[255, 255], [255, 0 :: 8 word]] \<noteq> []" by simp
  have h2: "concat (dft2 (map (map (\<lambda>p. real (unat p) / 255)) [[255, 255], [255, 0 :: 8 word]])) \<noteq> []"
    by (simp add: dft2_2x2)
  note t = ft_extract_anomalies_masks_spectrum [of "[[255, 255], [255, 0]]" dft2 "1/2" idft2, OF h1 h2]
  have c: "fshift_proc_of (fshift_of dft2 [[255, 255], [255, 0]]) (Fin (ln 3 / 2)) = [[- 1, 1], [1, 0]]"
    by (simp only: fshift_of_dft2_masked fshift_proc_of_dft2_masked)
  show ?thesis
    by (intro conjI h1 h2 t fshift_of_dft2_masked c ft_extract_anomalies_dft2_masked)
qed


text \<open>
  The claim as stated fails at the constant 2 \<times> 2 image with \<open>mag_thresh = 0.5\<close>: the
  transform of the scaled image is 4 at frequency zero and 0 elsewhere, the log-magnitudes
  are \<open>ln 4\<close> and three times \<open>-inf\<close>, the threshold value is
  \<open>-inf + 0.5 * (ln 4 - -inf) = nan\<close>, and all four entries are kept, the large one
  included, although no log-magnitude is at or below \<open>nan\<close>.
\<close>

theorem ft_extract_anomalies_zero_spectrum_counterexample:
  "fshift_of dft2 [[255, 255], [255, 255]] = [[0, 0], [0, 4]] \<and>
   mag_img_of (fshift_of dft2 [[255, 255], [255, 255]]) = [[NInf, NInf], [NInf, Fin (ln 4)]] \<and>
   thresh_val_of (mag_img_of (fshift_of dft2 [[255, 255], [255, 255]])) (1/2) = Inr NaN \<and>
   fshift_proc_of (fshift_of dft2 [[255, 255], [255, 255]]) NaN = [[0, 0], [0, 4]] \<and>
   \<not> np_le (np_log (cmod 4)) NaN \<and> \<not> np_le (np_log (cmod 0)) NaN \<and>
   ft_extract_anomalies dft2 idft2 [[255, 255], [255, 255]] (1/2) = Inr [[255, 255], [255, 255]]"
proof -
  have z: "0 \<in> set (concat [[0, 0], [0, 4 :: complex]])" by simp
  have th: "thresh_val_of (mag_img_of (fshift_of dft2 [[255, 255], [255, 255]])) (1/2) = Inr NaN"
    unfolding fshift_of_dft2_constant by (rule thresh_val_of_zero_entry [OF z]) simp
  have m: "mag_img_of (fshift_of dft2 [[255, 255], [255, 255]]) =
             [[NInf, NInf], [NInf, Fin (ln 4)]]"
    by (simp add: fshift_of_dft2_constant mag_img_of_def np_log_def)
  have p: "fshift_proc_of (fshift_of dft2 [[255, 255], [255, 255]]) NaN = [[0, 0], [0, 4]]"
    by (simp only: fshift_proc_of_NaN fshift_of_dft2_constant)
  have n: "\<not> np_le (np_log (cmod 4)) NaN" "\<not> np_le (np_log (cmod 0)) NaN"
    by (simp_all add: np_log_def)
  show ?thesis
    by (intro conjI fshift_of_dft2_constant m th p n ft_extract_anomalies_dft2_constant)
qed

text \<open>
  Claim C10. Whenever \<open>ft_extract_anomalies\<close> returns an image, each pixel is the magnitude
  of the inverse FFT times 255 with the fraction dropped, cast to 8 bits without clipping:
  its value is \<open>\<lfloor>255 * magnitude\<rfloor> mod 256\<close>, so a product of 256 or more wraps around
  instead of saturating at 255.
\<close>

theorem ft_extract_anomalies_uint8_wraps:
  assumes "ft_extract_anomalies fft2 ifft2 img mag_thresh = Inr out"
  shows "\<exists>thresh_val img_proc.
      thresh_val_of (mag_img_of (fshift_of fft2 img)) mag_thresh = Inr thresh_val \<and>
      img_proc = img_proc_abs_of ifft2 (fshift_proc_of (fshift_of fft2 img) thresh_val) \<and>
      out = map (map (\<lambda>x. word_of_int \<lfloor>x * 255\<rfloor>)) img_proc \<and>
      length out = length img_proc \<and>
      (\<forall>i<length img_proc. length (out ! i) = length (img_proc ! i) \<and>
         (\<forall>j<length (img_proc ! i).
            unat (out ! i ! j) = nat \<lfloor>img_proc ! i ! j * 255\<rfloor> mod 256))"
proof -
  from assms obtain thresh_val
    where th: "thresh_val_of (mag_img_of (fshift_of fft2 img)) mag_thresh = Inr thresh_val"
      and out: "out = map (map (\<lambda>x. astype_uint8 (x * 255)))
                  (img_proc_abs_of ifft2 (fshift_proc_of (fshift_of fft2 img) thresh_val))"
    by (auto simp: ft_extract_anomalies_stages split: if_splits sum.splits)
  define img_proc where "img_proc = img_proc_abs_of ifft2 (fshift_proc_of (fshift_of fft2 img) thresh_val)"
  have nonneg: "0 \<le> x" if "r \<in> set img_proc" "x \<in> set r" for r x
    using that by (auto simp: img_proc_def img_proc_abs_of_def)
  have conv: "astype_uint8 (x * 255) = word_of_int \<lfloor>x * 255\<rfloor>" if "0 \<le> x" for x
    using that by (simp add: astype_uint8_def np_trunc_def)
  have out': "out = map (map (\<lambda>x. word_of_int \<lfloor>x * 255\<rfloor>)) img_proc"
    unfolding out img_proc_def [symmetric]
    by (intro map_cong refl conv nonneg)
  have px: "unat (out ! i ! j) = nat \<lfloor>img_proc ! i ! j * 255\<rfloor> mod 256"
    if "i < length img_proc" "j < length (img_proc ! i)" for i j
  proof -
    have "0 \<le> img_proc ! i ! j" using that nonneg by (meson nth_mem)
    then have "0 \<le> img_proc ! i ! j * 255" by simp
    from unat_astype_uint8 [OF this] show ?thesis
      using that by (simp add: out img_proc_def [symmetric])
  qed
  show ?thesis
    using th img_proc_def out' px by (auto simp: out')
qed

theorem ft_extract_anomalies_uint8_wraps_witness:
  "ft_extract_anomalies (map (map complex_of_real)) (\<lambda>m. m) [[200]] (1/2) = Inr [[200]] \<and>
   (\<exists>thresh_val img_proc.
      thresh_val_of (mag_img_of (fshift_of (map (map complex_of_real)) [[200]])) (1/2) =
        Inr thresh_val \<and>
      img_proc = img_proc_abs_of (\<lambda>m. m)
          (fshift_proc_of (fshift_of (map (map complex_of_real)) [[200]]) thresh_val) \<and>
      [[200 :: 8 word]] = map (map (\<lambda>x. word_of_int \<lfloor>x * 255\<rfloor>)) img_proc \<and>
      length [[200 :: 8 word]] = length img_proc \<and>
      (\<forall>i<length img_proc. length ([[200 :: 8 word]] ! i) = length (img_proc ! i) \<and>
         (\<forall>j<length (img_proc ! i).
            unat ([[200 :: 8 word]] ! i ! j) = nat \<lfloor>img_proc ! i ! j * 255\<rfloor> mod 256)))"
proof (rule conjI)
  show "ft_extract_anomalies (map (map complex_of_real)) (\<lambda>m. m) [[200]] (1/2) = Inr [[200]]"
    by (rule ft_1x1)
next
  show "\<exists>thresh_val img_proc.
      thresh_val_of (mag_img_of (fshift_of (map (map complex_of_real)) [[200]])) (1/2) =
        Inr thresh_val \<and>
      img_proc = img_proc_abs_of (\<lambda>m. m)
          (fshift_proc_of (fshift_of (map (map complex_of_real)) [[200]]) thresh_val) \<and>
      [[200 :: 8 word]] = map (map (\<lambda>x. word_of_int \<lfloor>x * 255\<rfloor>)) img_proc \<and>
      length [[200 :: 8 word]] = length img_proc \<and>
      (\<forall>i<length img_proc. length ([[200 :: 8 word]] ! i) = length (img_proc ! i) \<and>
         (\<forall>j<length (img_proc ! i).
            unat ([[200 :: 8 word]] ! i ! j) = nat \<lfloor>img_proc ! i ! j * 255\<rfloor> mod 256))"
    by (rule ft_extract_anomalies_uint8_wraps [OF ft_1x1])
qed

text \<open>A magnitude of 1.5 gives \<open>\<lfloor>382.5\<rfloor> mod 256 = 126\<close>, not 255.\<close>

lemma astype_uint8_wraps_example: "astype_uint8 (3/2 * 255) = 126"
  by (simp add: astype_uint8_def np_trunc_def)

lemma astype_uint8_pixel: "astype_uint8 (cmod (complex_of_real (real (unat p) / 255)) * 255) = p"
  for p :: "8 word"
proof -
  define n where "n = unat p"
  have "astype_uint8 (cmod (complex_of_real (real n / 255)) * 255) = word_of_nat n"
    by (simp add: astype_uint8_def np_trunc_def)
  then show ?thesis by (simp add: n_def)
qed

text \<open>
  Claim C2, as amended. \<open>ft_extract_anomalies\<close> has no guard for a degenerate spectrum.
  For an image with at least one pixel whose spectrum has an entry equal to 0 (as the
  spectrum of an all-zero image has, and that of a constant image with more than one
  pixel) and a magnitude threshold that is not negative, \<open>np.log 0 = -inf\<close> makes the
  threshold value \<open>min + mag_thresh * (max - min)\<close> a \<open>nan\<close>; no log-magnitude exceeds
  \<open>nan\<close>, so the mask is empty and the spectrum is left as it is. The function does not
  raise: it returns the 8-bit image of 255 times the magnitude of the inverse FFT of the
  unmasked spectrum, which is the input image whenever that inverse FFT gives back the
  scaled input exactly.
\<close>

theorem ft_extract_anomalies_zero_entry_unmasked:
  assumes "concat img \<noteq> []"
    and "0 \<in> set (concat (fft2 (map (map (\<lambda>p. real (unat p) / 255)) img)))"
    and "0 \<le> mag_thresh"
  shows "thresh_val_of (mag_img_of (fshift_of fft2 img)) mag_thresh = Inr NaN \<and>
         fshift_proc_of (fshift_of fft2 img) NaN = fshift_of fft2 img \<and>
         ft_extract_anomalies fft2 ifft2 img mag_thresh =
           Inr (map (map (\<lambda>z. astype_uint8 (cmod z * 255)))
                  (ifft2 (ifftshift (fshift_of fft2 img)))) \<and>
         (ifft2 (ifftshift (fshift_of fft2 img)) =
            map (map (\<lambda>p. complex_of_real (real (unat p) / 255))) img \<longrightarrow>
          ft_extract_anomalies fft2 ifft2 img mag_thresh = Inr img)"
proof -
  have z: "0 \<in> set (concat (fshift_of fft2 img))"
    unfolding fshift_of_def set_concat_fftshift by (rule assms(2))
  have th: "thresh_val_of (mag_img_of (fshift_of fft2 img)) mag_thresh = Inr NaN"
    using z assms(3) by (rule thresh_val_of_zero_entry)
  have res: "ft_extract_anomalies fft2 ifft2 img mag_thresh =
           Inr (map (map (\<lambda>z. astype_uint8 (cmod z * 255)))
                  (ifft2 (ifftshift (fshift_of fft2 img))))"
    using assms(1)
    by (simp add: ft_extract_anomalies_stages th fshift_proc_of_NaN img_proc_abs_of_def comp_def)
  have rt: "ft_extract_anomalies fft2 ifft2 img mag_thresh = Inr img"
    if "ifft2 (ifftshift (fshift_of fft2 img)) =
            map (map (\<lambda>p. complex_of_real (real (unat p) / 255))) img"
  proof -
    have "map (map (\<lambda>z. astype_uint8 (cmod z * 255)))
            (map (map (\<lambda>p. complex_of_real (real (unat p) / 255))) img) =
          map (map (\<lambda>p. astype_uint8 (cmod (complex_of_real (real (unat p) / 255)) * 255))) img"
      by (simp only: map_map comp_def)
    also have "\<dots> = map (map (\<lambda>p. p)) img"
      by (simp only: astype_uint8_pixel)
    also have "\<dots> = img" by simp
    finally show ?thesis unfolding res that by simp
  qed
  from th res rt show ?thesis by (simp add: fshift_proc_of_NaN)
qed

lemma ft_1x1_zero:
  "ft_extract_anomalies (map (map complex_of_real)) (\<lambda>m. m) [[0]] (1/2) = Inr [[0]]"
  by (simp add: ft_extract_anomalies_def fftshift_def fftshift1_def ifftshift_def ifftshift1_def
      mag_img_of_def thresh_val_of_def np_log_def np_sub_def mag_img_mask_of_def astype_bool_def
      cv2_threshold_binary_def mul_mask_def astype_uint8_def np_trunc_def)

theorem ft_extract_anomalies_zero_entry_unmasked_witness:
  "concat [[0 :: 8 word]] \<noteq> [] \<and>
   0 \<in> set (concat (map (map complex_of_real) (map (map (\<lambda>p. real (unat p) / 255)) [[0 :: 8 word]]))) \<and>
   (0 :: real) \<le> 1/2 \<and>
   thresh_val_of (mag_img_of (fshift_of (map (map complex_of_real)) [[0]])) (1/2) = Inr NaN \<and>
   ft_extract_anomalies (map (map complex_of_real)) (\<lambda>m. m) [[0]] (1/2) = Inr [[0]]"
proof -
  have h1: "concat [[0 :: 8 word]] \<noteq> []" by simp
  have h2: "0 \<in> set (concat (map (map complex_of_real)
              (map (map (\<lambda>p. real (unat p) / 255)) [[0 :: 8 word]])))" by simp
  have h3: "(0 :: real) \<le> 1/2" by simp
  note t = ft_extract_anomalies_zero_entry_unmasked
    [of "[[0]]" "map (map complex_of_real)" "1/2" "\<lambda>m. m", OF h1 h2 h3]
  have th: "thresh_val_of (mag_img_of (fshift_of (map (map complex_of_real)) [[0]])) (1/2) = Inr NaN"
    by (rule t [THEN conjunct1])
  have rt: "ifftshift (fshift_of (map (map complex_of_real)) [[0 :: 8 word]]) =
              map (map (\<lambda>p. complex_of_real (real (unat p) / 255))) [[0 :: 8 word]]"
    by (simp add: fshift_of_def fftshift_def fftshift1_def ifftshift_def ifftshift1_def)
  have res: "ft_extract_anomalies (map (map complex_of_real)) (\<lambda>m. m) [[0]] (1/2) = Inr [[0]]"
    by (rule t [THEN conjunct2, THEN conjunct2, THEN conjunct2, THEN mp, OF rt])
  show ?thesis
    by (intro conjI h1 h2 h3 th res)
qed

text \<open>
  The claim as stated fails at the all-zero image of one pixel, where the discrete Fourier
  transform is the identity: the function returns the image, but not through a guard; the
  only log-magnitude is \<open>-inf\<close> and the threshold normalisation \<open>-inf + 0.5 * (-inf - -inf)\<close>
  yields \<open>nan\<close>, which is then handed to \<open>cv2.threshold\<close>.
\<close>

theorem ft_extract_anomalies_nan_threshold_counterexample:
  "ft_extract_anomalies (map (map complex_of_real)) (\<lambda>m. m) [[0]] (1/2) = Inr [[0]] \<and>
   mag_img_of (fshift_of (map (map complex_of_real)) [[0]]) = [[NInf]] \<and>
   thresh_val_of (mag_img_of (fshift_of (map (map complex_of_real)) [[0]])) (1/2) = Inr NaN"
  by (simp add: ft_1x1_zero fshift_of_def fftshift_def fftshift1_def mag_img_of_def
      thresh_val_of_def np_log_def np_sub_def)

section \<open>Properties of the bounding boxes\<close>

lemma find_bounding_boxes_stages:
  "find_bounding_boxes globals img perc_thresh area_thresh dilation_size =
     (case regions_of img perc_thresh dilation_size of
        Inl e \<Rightarrow> Inl e
      | Inr regions \<Rightarrow>
          (case img_proc_np globals of
             None \<Rightarrow> Inl NameError
           | Some g \<Rightarrow>
               Inr (map bbox (filter (\<lambda>reg. real (shape0 g) * real (shape1 g) * area_thresh
                                             \<le> real (area reg)) regions))))"
  by (simp add: find_bounding_boxes_def regions_of_def Let_def split: sum.splits option.splits)

lemma coords_of_label:
  "p \<in> set (coords_of img_lab l) \<Longrightarrow> img_lab ! fst p ! snd p = l"
  by (auto simp: coords_of_def)

lemma regionprops_label_distinct: "distinct (map label (regionprops img_lab))"
proof -
  have "map label (filter P (map (\<lambda>l. \<lparr>label = l, coords = f l\<rparr>) ls))
          = filter (\<lambda>l. P \<lparr>label = l, coords = f l\<rparr>) ls" for P f and ls :: "nat list"
    by (induction ls) auto
  then show ?thesis
    by (simp add: regionprops_def Let_def)
qed

lemma regionprops_coords:
  assumes "reg \<in> set (regionprops img_lab)"
  shows "coords reg = coords_of img_lab (label reg)" and "coords reg \<noteq> []"
  using assms by (auto simp: regionprops_def Let_def)

lemma regionprops_disjoint:
  assumes "r \<in> set (regionprops img_lab)" and "r' \<in> set (regionprops img_lab)"
    and "label r \<noteq> label r'"
  shows "set (coords r) \<inter> set (coords r') = {}"
proof -
  have "p \<in> set (coords r) \<Longrightarrow> p \<in> set (coords r') \<Longrightarrow> False" for p
    using assms regionprops_coords(1) coords_of_label by metis
  then show ?thesis by blast
qed

lemma fold_min_le:
  fixes x :: nat
  assumes "x \<in> set xs"
  shows "fold min xs (hd xs) \<le> x"
proof -
  have "fold min xs (hd xs) = Min (set (hd xs # xs))"
    by (simp only: Min.set_eq_fold)
  also have "\<dots> \<le> x" using assms by (intro Min_le) auto
  finally show ?thesis .
qed

lemma fold_max_ge:
  fixes x :: nat
  assumes "x \<in> set xs"
  shows "x \<le> fold max xs (hd xs)"
proof -
  have "fold max xs (hd xs) = Max (set (hd xs # xs))"
    by (simp only: Max.set_eq_fold)
  moreover have "x \<le> Max (set (hd xs # xs))" using assms by (intro Max_ge) auto
  ultimately show ?thesis by simp
qed

lemma bbox_encloses:
  assumes "p \<in> set (coords reg)"
  shows "inside_bbox (bbox reg) p"
proof -
  obtain i j where p: "p = (i, j)" by (cases p)
  have i: "i \<in> set (map fst (coords reg))" and j: "j \<in> set (map snd (coords reg))"
    using assms p by force+
  show ?thesis
    using fold_min_le [OF i] fold_max_ge [OF i] fold_min_le [OF j] fold_max_ge [OF j]
    by (simp add: bbox_def p Let_def less_Suc_eq_le)
qed

lemma fold_min_in:
  fixes xs :: "nat list"
  assumes "xs \<noteq> []"
  shows "fold min xs (hd xs) \<in> set xs"
proof -
  have "fold min xs (hd xs) = Min (set (hd xs # xs))"
    by (simp only: Min.set_eq_fold)
  moreover have "set (hd xs # xs) = set xs" using assms by auto
  moreover have "Min (set xs) \<in> set xs" using assms by (intro Min_in) auto
  ultimately show ?thesis by simp
qed

lemma fold_max_in:
  fixes xs :: "nat list"
  assumes "xs \<noteq> []"
  shows "fold max xs (hd xs) \<in> set xs"
proof -
  have "fold max xs (hd xs) = Max (set (hd xs # xs))"
    by (simp only: Max.set_eq_fold)
  moreover have "set (hd xs # xs) = set xs" using assms by auto
  moreover have "Max (set xs) \<in> set xs" using assms by (intro Max_in) auto
  ultimately show ?thesis by simp
qed

lemma bbox_tight:
  assumes "coords reg \<noteq> []"
  shows "tight_bbox (bbox reg) (coords reg)"
proof -
  have i: "map fst (coords reg) \<noteq> []" and j: "map snd (coords reg) \<noteq> []"
    using assms by simp_all
  have "\<exists>p \<in> set (coords reg). fst p = v" if "v \<in> set (map fst (coords reg))" for v
    using that by auto
  moreover have "\<exists>p \<in> set (coords reg). snd p = v" if "v \<in> set (map snd (coords reg))" for v
    using that by auto
  ultimately show ?thesis
    using fold_min_in [OF i] fold_max_in [OF i] fold_min_in [OF j] fold_max_in [OF j]
    by (simp add: bbox_def Let_def)
qed

text \<open>
  The model of \<open>measure.label\<close> does what a labelling has to do: \<open>flood\<close> splits the pixels
  it is given into a component and a remainder that has no neighbour in the component, the
  components are 8-connected, they partition the set pixels, and the regions that
  \<open>regionprops\<close> reads off the label image are the components, in their order.
\<close>

lemma adjacent8_sym: "adjacent8 p q \<Longrightarrow> adjacent8 q p"
  by (auto simp: adjacent8_def)

lemma linked_mono: "S \<subseteq> T \<Longrightarrow> linked S \<subseteq> linked T"
  by (auto simp: linked_def)

lemma sym_linked: "sym (linked S)"
  by (auto simp: linked_def sym_def adjacent8_sym)

lemma flood_Cons:
  "flood (p # frontier) rest =
     (p # fst (flood (frontier @ filter (adjacent8 p) rest) (filter (\<lambda>q. \<not> adjacent8 p q) rest)),
      snd (flood (frontier @ filter (adjacent8 p) rest) (filter (\<lambda>q. \<not> adjacent8 p q) rest)))"
  by (simp add: Let_def split: prod.split)

lemma flood_induct [case_names Nil Cons]:
  assumes "\<And>rest. P [] rest"
    and "\<And>p frontier rest.
           P (frontier @ filter (adjacent8 p) rest) (filter (\<lambda>q. \<not> adjacent8 p q) rest) \<Longrightarrow>
           P (p # frontier) rest"
  shows "P frontier rest"
proof (induction frontier rest rule: flood.induct)
  case (1 rest)
  show ?case by (rule assms(1))
next
  case (2 p frontier rest)
  show ?case by (rule assms(2)) (rule 2 [OF refl refl])
qed

lemma mset_filter_split:
  "mset (filter P xs) + mset (filter (\<lambda>x. \<not> P x) xs) = mset xs"
  by (induction xs) auto

lemma flood_mset:
  "mset (fst (flood frontier rest)) + mset (snd (flood frontier rest)) = mset frontier + mset rest"
proof (induction frontier rest rule: flood_induct)
  case (Nil rest)
  show ?case by simp
next
  case (Cons p frontier rest)
  let ?nb = "filter (adjacent8 p) rest"
  let ?rest' = "filter (\<lambda>q. \<not> adjacent8 p q) rest"
  have "mset (fst (flood (p # frontier) rest)) + mset (snd (flood (p # frontier) rest)) =
          add_mset p (mset (fst (flood (frontier @ ?nb) ?rest')) + mset (snd (flood (frontier @ ?nb) ?rest')))"
    by (simp add: flood_Cons del: flood.simps)
  also have "\<dots> = add_mset p (mset (frontier @ ?nb) + mset ?rest')"
    by (simp only: Cons.IH)
  also have "\<dots> = add_mset p (mset frontier + (mset ?nb + mset ?rest'))"
    by (simp add: ac_simps)
  also have "\<dots> = mset (p # frontier) + mset rest"
    by (simp only: mset_filter_split) simp
  finally show ?case .
qed

lemma flood_frontier_subset: "set frontier \<subseteq> set (fst (flood frontier rest))"
proof (induction frontier rest rule: flood_induct)
  case (Nil rest)
  show ?case by simp
next
  case (Cons p frontier rest)
  then show ?case by (auto simp only: flood_Cons fst_conv set_simps set_append)
qed

lemma flood_rest_subset: "set (snd (flood frontier rest)) \<subseteq> set rest"
proof (induction frontier rest rule: flood_induct)
  case (Nil rest)
  show ?case by simp
next
  case (Cons p frontier rest)
  have "set (snd (flood (p # frontier) rest)) \<subseteq> set (filter (\<lambda>q. \<not> adjacent8 p q) rest)"
    using Cons.IH by (simp only: flood_Cons snd_conv)
  then show ?case by auto
qed

lemma flood_separated:
  "c \<in> set (fst (flood frontier rest)) \<Longrightarrow> q \<in> set (snd (flood frontier rest)) \<Longrightarrow>
     \<not> adjacent8 c q"
proof (induction frontier rest rule: flood_induct)
  case (Nil rest)
  then show ?case by simp
next
  case (Cons p frontier rest)
  let ?nb = "filter (adjacent8 p) rest"
  let ?rest' = "filter (\<lambda>q. \<not> adjacent8 p q) rest"
  from Cons.prems(2) have q: "q \<in> set (snd (flood (frontier @ ?nb) ?rest'))"
    by (simp only: flood_Cons snd_conv)
  from Cons.prems(1) have c: "c = p \<or> c \<in> set (fst (flood (frontier @ ?nb) ?rest'))"
    by (simp only: flood_Cons fst_conv set_simps insert_iff)
  show ?case
  proof (cases "c = p")
    case True
    have "q \<in> set ?rest'" using q flood_rest_subset by blast
    then show ?thesis using True by simp
  next
    case False
    with c have "c \<in> set (fst (flood (frontier @ ?nb) ?rest'))" by simp
    then show ?thesis using q by (rule Cons.IH)
  qed
qed

lemma flood_linked:
  "c \<in> set (fst (flood frontier rest)) \<Longrightarrow>
     \<exists>s \<in> set frontier. (s, c) \<in> (linked (set (fst (flood frontier rest))))\<^sup>*"
proof (induction frontier rest rule: flood_induct)
  case (Nil rest)
  then show ?case by simp
next
  case (Cons p frontier rest)
  let ?nb = "filter (adjacent8 p) rest"
  let ?rest' = "filter (\<lambda>q. \<not> adjacent8 p q) rest"
  let ?comp = "fst (flood (frontier @ ?nb) ?rest')"
  have fst: "fst (flood (p # frontier) rest) = p # ?comp"
    by (simp only: flood_Cons fst_conv)
  have mono: "(linked (set ?comp))\<^sup>* \<subseteq> (linked (set (p # ?comp)))\<^sup>*"
    by (intro rtrancl_mono linked_mono) auto
  show ?case
  proof (cases "c = p")
    case True
    have "(p, p) \<in> (linked (set (p # ?comp)))\<^sup>*" by simp
    then show ?thesis unfolding fst True by auto
  next
    case False
    with Cons.prems have c: "c \<in> set ?comp" unfolding fst by simp
    from Cons.IH [OF c] obtain s where s: "s \<in> set (frontier @ ?nb)"
      and path: "(s, c) \<in> (linked (set ?comp))\<^sup>*" by blast
    have path': "(s, c) \<in> (linked (set (p # ?comp)))\<^sup>*" using path mono by blast
    show ?thesis
    proof (cases "s \<in> set frontier")
      case True
      then show ?thesis unfolding fst using path' by auto
    next
      case False
      with s have nb: "s \<in> set ?nb" by auto
      then have "adjacent8 p s" by simp
      moreover have "s \<in> set ?comp" using s flood_frontier_subset by blast
      ultimately have "(p, s) \<in> linked (set (p # ?comp))" by (simp add: linked_def)
      then have "(p, c) \<in> (linked (set (p # ?comp)))\<^sup>*"
        using path' by (rule converse_rtrancl_into_rtrancl)
      then show ?thesis unfolding fst by auto
    qed
  qed
qed

lemma flood_single_connected: "connected8 (set (fst (flood [p] rest)))"
proof -
  let ?S = "set (fst (flood [p] rest))"
  have from_p: "(p, c) \<in> (linked ?S)\<^sup>*" if "c \<in> ?S" for c
    using flood_linked [OF that] by simp
  have "(a, b) \<in> (linked ?S)\<^sup>*" if "a \<in> ?S" "b \<in> ?S" for a b
  proof -
    have "sym ((linked ?S)\<^sup>*)" by (rule sym_rtrancl) (rule sym_linked)
    then have "(a, p) \<in> (linked ?S)\<^sup>*"
      using from_p [OF that(1)] by (rule symD)
    then show ?thesis using from_p [OF that(2)] by (rule rtrancl_trans)
  qed
  then show ?thesis by (simp add: connected8_def)
qed

lemma components_Cons:
  "components (p # ps) = fst (flood [p] ps) # components (snd (flood [p] ps))"
  by (simp add: split: prod.split)

lemma components_induct [case_names Nil Cons]:
  assumes "P []"
    and "\<And>p ps. P (snd (flood [p] ps)) \<Longrightarrow> P (p # ps)"
  shows "P ps"
proof (induction ps rule: components.induct)
  case 1
  show ?case by (rule assms(1))
next
  case (2 p ps)
  have "P (snd (flood [p] ps))"
    by (rule 2 [OF refl, of "fst (flood [p] ps)"]) simp
  then show ?case by (rule assms(2))
qed

lemma components_mset: "mset (concat (components ps)) = mset ps"
proof (induction ps rule: components_induct)
  case Nil
  show ?case by simp
next
  case (Cons p ps)
  note IH = Cons.IH
  have "mset (concat (components (p # ps))) =
          mset (fst (flood [p] ps)) + mset (snd (flood [p] ps))"
    by (simp only: components_Cons concat.simps mset_append IH)
  also have "\<dots> = mset (p # ps)"
    by (simp only: flood_mset) simp
  finally show ?case .
qed

lemma components_connected:
  "c \<in> set (components ps) \<Longrightarrow> c \<noteq> [] \<and> connected8 (set c)"
proof (induction ps rule: components_induct)
  case Nil
  then show ?case by simp
next
  case (Cons p ps)
  note IH = Cons.IH
  from Cons.prems have "c = fst (flood [p] ps) \<or> c \<in> set (components (snd (flood [p] ps)))"
    by (simp only: components_Cons set_simps insert_iff)
  then show ?case
  proof
    assume c: "c = fst (flood [p] ps)"
    have "p \<in> set c" using flood_frontier_subset [of "[p]" ps] c by auto
    then have "c \<noteq> []" by auto
    moreover have "connected8 (set c)" unfolding c by (rule flood_single_connected)
    ultimately show ?thesis by simp
  next
    assume "c \<in> set (components (snd (flood [p] ps)))"
    then show ?thesis by (rule IH)
  qed
qed

lemma components_separated:
  "sorted_wrt (\<lambda>c c'. \<forall>x \<in> set c. \<forall>y \<in> set c'. \<not> adjacent8 x y) (components ps)"
proof (induction ps rule: components_induct)
  case Nil
  show ?case by simp
next
  case (Cons p ps)
  let ?comp = "fst (flood [p] ps)" and ?rest = "snd (flood [p] ps)"
  note IH = Cons.IH
  have sub: "set c' \<subseteq> set ?rest" if "c' \<in> set (components ?rest)" for c'
  proof -
    have "set c' \<subseteq> set (concat (components ?rest))" using that by auto
    also have "\<dots> = set ?rest" using components_mset [of ?rest] by (metis set_mset_mset)
    finally show ?thesis .
  qed
  have "\<forall>c' \<in> set (components ?rest). \<forall>x \<in> set ?comp. \<forall>y \<in> set c'. \<not> adjacent8 x y"
    using sub flood_separated by blast
  then show ?case
    using IH by (simp only: components_Cons sorted_wrt.simps)
qed


lemma fg_pixels_iff:
  "(i, j) \<in> set (fg_pixels bimg) \<longleftrightarrow> i < length bimg \<and> j < length (bimg ! i) \<and> bimg ! i ! j"
  by (auto simp: fg_pixels_def)

lemma distinct_concat_map:
  assumes "distinct xs" and "\<And>x. x \<in> set xs \<Longrightarrow> distinct (f x)"
    and "\<And>x y. x \<in> set xs \<Longrightarrow> y \<in> set xs \<Longrightarrow> x \<noteq> y \<Longrightarrow> set (f x) \<inter> set (f y) = {}"
  shows "distinct (concat (map f xs))"
  using assms
proof (induction xs)
  case Nil
  show ?case by simp
next
  case (Cons x xs)
  have "set (f x) \<inter> set (f y) = {}" if "y \<in> set xs" for y
    using Cons.prems(1) Cons.prems(3) [of x y] that by auto
  moreover have "distinct (concat (map f xs))"
    using Cons.prems by (intro Cons.IH) auto
  ultimately show ?case using Cons.prems(2) by auto
qed

lemma distinct_fg_pixels: "distinct (fg_pixels bimg)"
  unfolding fg_pixels_def
  by (rule distinct_concat_map) (auto simp: distinct_map inj_on_def)

lemma distinct_concat_components:
  "distinct ps \<Longrightarrow> distinct (concat (components ps))"
  using components_mset [of ps] by (metis mset_eq_imp_distinct_iff)

lemma label_of_zero:
  "\<forall>c \<in> set cs. p \<notin> set c \<Longrightarrow> label_of cs k p = 0"
  by (induction cs arbitrary: k) auto

lemma label_of_nth:
  "distinct (concat cs) \<Longrightarrow> i < length cs \<Longrightarrow> p \<in> set (cs ! i) \<Longrightarrow> label_of cs k p = k + i"
proof (induction cs arbitrary: k i)
  case Nil
  then show ?case by simp
next
  case (Cons c cs)
  show ?case
  proof (cases i)
    case 0
    with Cons.prems show ?thesis by simp
  next
    case (Suc i')
    with Cons.prems have i': "i' < length cs" "p \<in> set (cs ! i')" by auto
    then have "p \<in> set (concat cs)" by (auto intro: nth_mem)
    with Cons.prems(1) have "p \<notin> set c" by auto
    moreover have "label_of cs (Suc k) p = Suc k + i'"
      using Cons.prems(1) i' by (intro Cons.IH) auto
    ultimately show ?thesis using Suc by simp
  qed
qed

lemma label_of_mem:
  "label_of cs k p = l \<Longrightarrow> 0 < k \<Longrightarrow> 0 < l \<Longrightarrow>
     k \<le> l \<and> l < k + length cs \<and> p \<in> set (cs ! (l - k))"
proof (induction cs arbitrary: k)
  case Nil
  then show ?case by simp
next
  case (Cons c cs)
  show ?case
  proof (cases "p \<in> set c")
    case True
    with Cons.prems show ?thesis by simp
  next
    case False
    with Cons.prems have "label_of cs (Suc k) p = l" by simp
    from Cons.IH [OF this] Cons.prems(3)
    have *: "Suc k \<le> l" "l < Suc k + length cs" "p \<in> set (cs ! (l - Suc k))" by auto
    then have "(c # cs) ! (l - k) = cs ! (l - Suc k)"
      by (metis Suc_diff_Suc Suc_le_lessD nth_Cons_Suc)
    with * show ?thesis by simp
  qed
qed


lemma length_measure_label: "length (measure_label bimg) = length bimg"
  by (simp add: measure_label_def Let_def)

lemma length_measure_label_row:
  "i < length bimg \<Longrightarrow> length (measure_label bimg ! i) = length (bimg ! i)"
  by (simp add: measure_label_def Let_def)

lemma measure_label_nth:
  "i < length bimg \<Longrightarrow> j < length (bimg ! i) \<Longrightarrow>
     measure_label bimg ! i ! j = label_of (components (fg_pixels bimg)) 1 (i, j)"
  by (simp add: measure_label_def Let_def)

lemma coords_of_iff:
  "(i, j) \<in> set (coords_of img_lab l) \<longleftrightarrow>
     i < length img_lab \<and> j < length (img_lab ! i) \<and> img_lab ! i ! j = l"
  by (auto simp: coords_of_def)

lemma set_concat_components: "set (concat (components ps)) = set ps"
  using components_mset [of ps] by (metis set_mset_mset)

lemma coords_of_measure_label:
  assumes "0 < l"
  shows "set (coords_of (measure_label bimg) l) =
           (if l \<le> length (components (fg_pixels bimg))
            then set (components (fg_pixels bimg) ! (l - 1)) else {})"
proof -
  let ?comps = "components (fg_pixels bimg)"
  have d: "distinct (concat ?comps)"
    by (intro distinct_concat_components distinct_fg_pixels)
  have sub: "p \<in> set (?comps ! (l - 1)) \<and> l \<le> length ?comps"
    if "p \<in> set (coords_of (measure_label bimg) l)" for p
  proof -
    obtain i j where p: "p = (i, j)" by (cases p)
    from that have r: "i < length bimg" "j < length (bimg ! i)"
      and lab: "measure_label bimg ! i ! j = l"
      by (auto simp: p coords_of_iff length_measure_label length_measure_label_row)
    then have "label_of ?comps 1 (i, j) = l" by (simp add: measure_label_nth)
    from label_of_mem [OF this _ assms] show ?thesis by (simp add: p)
  qed
  have sup: "p \<in> set (coords_of (measure_label bimg) l)"
    if "l \<le> length ?comps" "p \<in> set (?comps ! (l - 1))" for p
  proof -
    obtain i j where p: "p = (i, j)" by (cases p)
    have lt: "l - 1 < length ?comps" using that(1) assms by simp
    then have "p \<in> set (concat ?comps)" using that(2) by (auto intro: nth_mem)
    then have "p \<in> set (fg_pixels bimg)" by (simp only: set_concat_components)
    then have "(i, j) \<in> set (fg_pixels bimg)" by (simp only: p)
    then have r: "i < length bimg" "j < length (bimg ! i)" by (simp_all add: fg_pixels_iff)
    have "label_of ?comps 1 (i, j) = 1 + (l - 1)"
      using d lt that(2) unfolding p by (rule label_of_nth)
    then show ?thesis
      using r assms
      by (simp add: p coords_of_iff length_measure_label length_measure_label_row measure_label_nth)
  qed
  have "set (coords_of (measure_label bimg) l) = set (?comps ! (l - 1))"
    if "l \<le> length ?comps"
    using sub sup that by blast
  moreover have "set (coords_of (measure_label bimg) l) = {}" if "\<not> l \<le> length ?comps"
  proof (rule ccontr)
    assume "set (coords_of (measure_label bimg) l) \<noteq> {}"
    then have "coords_of (measure_label bimg) l \<noteq> []" by simp
    then have "hd (coords_of (measure_label bimg) l) \<in> set (coords_of (measure_label bimg) l)"
      by (rule hd_in_set)
    from sub [OF this] that show False by simp
  qed
  ultimately show ?thesis by simp
qed

lemma measure_label_entries:
  "x \<in> set (concat (measure_label bimg)) \<Longrightarrow> x \<le> length (components (fg_pixels bimg))"
proof -
  assume "x \<in> set (concat (measure_label bimg))"
  then obtain p where x: "x = label_of (components (fg_pixels bimg)) 1 p"
    by (auto simp: measure_label_def Let_def)
  show ?thesis
  proof (cases "x = 0")
    case True
    then show ?thesis by simp
  next
    case False
    then have "0 < x" by simp
    from label_of_mem [OF x [symmetric] _ this] show ?thesis by simp
  qed
qed

lemma max_label:
  "fold max (concat (measure_label bimg)) 0 = length (components (fg_pixels bimg))"
proof -
  let ?comps = "components (fg_pixels bimg)"
  let ?lab = "measure_label bimg"
  have fold: "fold max (concat ?lab) 0 = Max (set (0 # concat ?lab))"
    by (simp only: Max.set_eq_fold)
  have le: "Max (set (0 # concat ?lab)) \<le> length ?comps"
    using measure_label_entries [of _ bimg] by (intro Max.boundedI) auto
  have ge: "length ?comps \<le> Max (set (0 # concat ?lab))"
  proof (cases "?comps = []")
    case True
    then show ?thesis by simp
  next
    case False
    let ?l = "length ?comps"
    have l: "0 < ?l" using False by simp
    have "?comps ! (?l - 1) \<in> set ?comps" using l by (intro nth_mem) simp
    then have "?comps ! (?l - 1) \<noteq> []" using components_connected by blast
    then obtain p where "p \<in> set (?comps ! (?l - 1))" by (cases "?comps ! (?l - 1)") auto
    then have mem: "p \<in> set (coords_of ?lab ?l)"
      using coords_of_measure_label [OF l, of bimg] by simp
    obtain i j where p: "p = (i, j)" by (cases p)
    from mem have ij: "i < length ?lab" "j < length (?lab ! i)" "?lab ! i ! j = ?l"
      unfolding p coords_of_iff by simp_all
    have "?lab ! i ! j \<in> set (?lab ! i)" using ij(2) by (rule nth_mem)
    moreover have "?lab ! i \<in> set ?lab" using ij(1) by (rule nth_mem)
    ultimately have "?lab ! i ! j \<in> set (concat ?lab)" by auto
    then have "?l \<in> set (concat ?lab)" by (simp only: ij(3))
    then show ?thesis by (intro Max_ge) auto
  qed
  show ?thesis unfolding fold using le ge by (rule antisym)
qed

lemma regionprops_measure_label:
  "regionprops (measure_label bimg) =
     map (\<lambda>l. \<lparr>label = l, coords = coords_of (measure_label bimg) l\<rparr>)
       [1..<Suc (length (components (fg_pixels bimg)))]"
proof -
  let ?comps = "components (fg_pixels bimg)"
  have "coords_of (measure_label bimg) l \<noteq> []" if "l \<in> set [1..<Suc (length ?comps)]" for l
  proof -
    from that have l: "0 < l" "l \<le> length ?comps" by auto
    then have "?comps ! (l - 1) \<in> set ?comps" by (intro nth_mem) simp
    then have "set (?comps ! (l - 1)) \<noteq> {}" using components_connected by fastforce
    then have "set (coords_of (measure_label bimg) l) \<noteq> {}"
      using coords_of_measure_label [OF l(1), of bimg] l(2) by simp
    then show ?thesis by auto
  qed
  then show ?thesis
    by (simp add: regionprops_def Let_def max_label filter_id_conv del: upt_Suc)
qed

lemma regions_are_components:
  "map label (regionprops (measure_label bimg)) = [1..<Suc (length (components (fg_pixels bimg)))] \<and>
   map (\<lambda>reg. set (coords reg)) (regionprops (measure_label bimg)) =
     map set (components (fg_pixels bimg))"
proof -
  let ?comps = "components (fg_pixels bimg)"
  have a: "map label (regionprops (measure_label bimg)) = [1..<Suc (length ?comps)]"
    by (simp add: regionprops_measure_label comp_def del: upt_Suc)
  have "map (\<lambda>reg. set (coords reg)) (regionprops (measure_label bimg)) =
          map (\<lambda>l. set (?comps ! (l - 1))) [1..<Suc (length ?comps)]"
    unfolding regionprops_measure_label
    by (auto simp: comp_def coords_of_measure_label simp del: upt_Suc)
  also have "\<dots> = map set ?comps"
    by (rule nth_equalityI) (auto simp: nth_append simp del: upt_Suc)
  finally show ?thesis using a by simp
qed


lemma adjacent8_refl: "adjacent8 p p"
  by (simp add: adjacent8_def)

lemma regionprops_nth_component:
  assumes "reg \<in> set (regionprops (measure_label bimg))"
  shows "\<exists>i < length (components (fg_pixels bimg)).
           label reg = Suc i \<and> set (coords reg) = set (components (fg_pixels bimg) ! i)"
proof -
  let ?rs = "regionprops (measure_label bimg)" and ?cs = "components (fg_pixels bimg)"
  from assms obtain i where i: "i < length ?rs" "?rs ! i = reg"
    by (auto simp: in_set_conv_nth)
  have len: "length ?rs = length ?cs"
    using regions_are_components [of bimg] by (metis length_map)
  have "map (\<lambda>reg. set (coords reg)) ?rs ! i = map set ?cs ! i"
    using regions_are_components [of bimg] by simp
  then have s: "set (coords reg) = set (?cs ! i)"
    using i len by simp
  have "map label ?rs ! i = [1..<Suc (length ?cs)] ! i"
    using regions_are_components [of bimg] by simp
  then have "label reg = Suc i"
    using i len by (simp add: nth_append del: upt_Suc)
  with s i len show ?thesis by auto
qed

lemma regionprops_connected:
  assumes "reg \<in> set (regionprops (measure_label bimg))"
  shows "connected8 (set (coords reg))"
proof -
  from regionprops_nth_component [OF assms] obtain i
    where i: "i < length (components (fg_pixels bimg))"
      and s: "set (coords reg) = set (components (fg_pixels bimg) ! i)" by auto
  have "components (fg_pixels bimg) ! i \<in> set (components (fg_pixels bimg))"
    using i by (rule nth_mem)
  then have "connected8 (set (components (fg_pixels bimg) ! i))"
    using components_connected by auto
  then show ?thesis by (simp only: s)
qed

lemma regionprops_separated:
  assumes "r \<in> set (regionprops (measure_label bimg))"
    and "r' \<in> set (regionprops (measure_label bimg))"
    and "label r \<noteq> label r'"
    and "x \<in> set (coords r)" and "y \<in> set (coords r')"
  shows "\<not> adjacent8 x y"
proof -
  let ?cs = "components (fg_pixels bimg)"
  let ?sep = "\<lambda>c c'. \<forall>x \<in> set c. \<forall>y \<in> set c'. \<not> adjacent8 x y"
  from regionprops_nth_component [OF assms(1)] obtain i
    where i: "i < length ?cs" "label r = Suc i" "set (coords r) = set (?cs ! i)" by auto
  from regionprops_nth_component [OF assms(2)] obtain j
    where j: "j < length ?cs" "label r' = Suc j" "set (coords r') = set (?cs ! j)" by auto
  have sw: "sorted_wrt ?sep ?cs" by (rule components_separated)
  have ne: "i \<noteq> j" using assms(3) i(2) j(2) by simp
  show ?thesis
  proof (cases "i < j")
    case True
    then have "?sep (?cs ! i) (?cs ! j)"
      using sw j(1) by (simp add: sorted_wrt_iff_nth_less)
    then show ?thesis using assms(4,5) i(3) j(3) by simp
  next
    case False
    with ne have "j < i" by simp
    then have "?sep (?cs ! j) (?cs ! i)"
      using sw i(1) by (simp add: sorted_wrt_iff_nth_less)
    then have "\<not> adjacent8 y x" using assms(4,5) i(3) j(3) by simp
    then show ?thesis using adjacent8_sym by blast
  qed
qed

lemma regionprops_labels:
  "map label (regionprops (measure_label bimg)) =
     [1..<Suc (length (regionprops (measure_label bimg)))]"
proof -
  have "length (regionprops (measure_label bimg)) = length (components (fg_pixels bimg))"
    using regions_are_components [of bimg] by (metis length_map)
  then show ?thesis using regions_are_components [of bimg] by simp
qed

text \<open>
  Claim C9, as amended. The boxes returned by \<open>find_bounding_boxes\<close> are, in order, the
  bounding boxes \<open>(min_row, min_col, max_row + 1, max_col + 1)\<close> of those labelled regions of
  the thresholded, dilated and border-cleared image (\<open>regions_of\<close>) whose area reaches the
  area floor. The regions are labelled \<open>1, 2, \<dots>\<close>; none is empty, each is 8-connected, lies
  inside its box and touches all four sides of it, and two different regions share no pixel
  and have no neighbouring pixels. The boxes themselves can share pixels.
\<close>

theorem find_bounding_boxes_disjoint_regions:
  assumes "find_bounding_boxes globals img perc_thresh area_thresh dilation_size = Inr bboxes"
  shows "\<exists>all_regions g.
           regions_of img perc_thresh dilation_size = Inr all_regions \<and>
           img_proc_np globals = Some g \<and>
           bboxes = map bbox (filter (\<lambda>reg. real (shape0 g) * real (shape1 g) * area_thresh
                                             \<le> real (area reg)) all_regions) \<and>
           map label all_regions = [1..<Suc (length all_regions)] \<and>
           (\<forall>r \<in> set all_regions. coords r \<noteq> [] \<and> connected8 (set (coords r)) \<and>
              (\<forall>p \<in> set (coords r). inside_bbox (bbox r) p) \<and> tight_bbox (bbox r) (coords r)) \<and>
           (\<forall>r \<in> set all_regions. \<forall>r' \<in> set all_regions.
              r \<noteq> r' \<longrightarrow> set (coords r) \<inter> set (coords r') = {} \<and>
                (\<forall>x \<in> set (coords r). \<forall>y \<in> set (coords r'). \<not> adjacent8 x y))"
proof -
  from assms obtain all_regions g
    where reg: "regions_of img perc_thresh dilation_size = Inr all_regions"
      and g: "img_proc_np globals = Some g"
      and boxes: "bboxes = map bbox (filter (\<lambda>reg. real (shape0 g) * real (shape1 g) * area_thresh
                                             \<le> real (area reg)) all_regions)"
    by (auto simp: find_bounding_boxes_stages split: sum.splits option.splits)
  from reg obtain bimg where all: "all_regions = regionprops (measure_label bimg)"
    by (auto simp: regions_of_def split: if_splits sum.splits)
  have lab: "map label all_regions = [1..<Suc (length all_regions)]"
    unfolding all by (rule regionprops_labels)
  have d: "distinct (map label all_regions)"
    unfolding all by (rule regionprops_label_distinct)
  have enc: "\<forall>r \<in> set all_regions. coords r \<noteq> [] \<and> connected8 (set (coords r)) \<and>
               (\<forall>p \<in> set (coords r). inside_bbox (bbox r) p) \<and> tight_bbox (bbox r) (coords r)"
  proof
    fix r assume "r \<in> set all_regions"
    then have r: "r \<in> set (regionprops (measure_label bimg))" by (simp only: all)
    have ne: "coords r \<noteq> []" by (rule regionprops_coords(2) [OF r])
    show "coords r \<noteq> [] \<and> connected8 (set (coords r)) \<and>
               (\<forall>p \<in> set (coords r). inside_bbox (bbox r) p) \<and> tight_bbox (bbox r) (coords r)"
      using ne regionprops_connected [OF r] bbox_encloses bbox_tight [OF ne] by simp
  qed
  have dis: "\<forall>r \<in> set all_regions. \<forall>r' \<in> set all_regions.
              r \<noteq> r' \<longrightarrow> set (coords r) \<inter> set (coords r') = {} \<and>
                (\<forall>x \<in> set (coords r). \<forall>y \<in> set (coords r'). \<not> adjacent8 x y)"
  proof (intro ballI impI conjI)
    fix r r' assume r: "r \<in> set all_regions" "r' \<in> set all_regions" "r \<noteq> r'"
    have l: "label r \<noteq> label r'"
      using d r by (meson distinct_map inj_onD)
    have rr: "r \<in> set (regionprops (measure_label bimg))"
      "r' \<in> set (regionprops (measure_label bimg))" using r by (simp_all only: all)
    show "set (coords r) \<inter> set (coords r') = {}"
      using rr l by (rule regionprops_disjoint)
    fix x y assume "x \<in> set (coords r)" "y \<in> set (coords r')"
    with rr l show "\<not> adjacent8 x y" by (rule regionprops_separated)
  qed
  have "regions_of img perc_thresh dilation_size = Inr all_regions \<and>
           img_proc_np globals = Some g \<and>
           bboxes = map bbox (filter (\<lambda>reg. real (shape0 g) * real (shape1 g) * area_thresh
                                             \<le> real (area reg)) all_regions) \<and>
           map label all_regions = [1..<Suc (length all_regions)] \<and>
           (\<forall>r \<in> set all_regions. coords r \<noteq> [] \<and> connected8 (set (coords r)) \<and>
              (\<forall>p \<in> set (coords r). inside_bbox (bbox r) p) \<and> tight_bbox (bbox r) (coords r)) \<and>
           (\<forall>r \<in> set all_regions. \<forall>r' \<in> set all_regions.
              r \<noteq> r' \<longrightarrow> set (coords r) \<inter> set (coords r') = {} \<and>
                (\<forall>x \<in> set (coords r). \<forall>y \<in> set (coords r'). \<not> adjacent8 x y))"
    using reg g boxes lab enc dis by (intro conjI)
  then show ?thesis by (intro exI)
qed

lemma concat_img_L: "concat img_L \<noteq> []"
  by (simp add: img_L_def)

lemma np_percentile_img_L: "np_percentile (map (\<lambda>p. real (unat p)) (concat img_L)) 50 = Inr 0"
  by (simp add: img_L_def np_percentile_def)

lemma np_trunc_0: "np_trunc 0 = 0"
  by (simp add: np_trunc_def)

lemma img_thresh_img_L:
  "map (map (\<lambda>v. 0 < v)) (cv2_threshold_binary_u8 img_L 0 1) = mask_L"
  by code_simp

lemma binary_dilation_mask_L: "binary_dilation mask_L 1 = Inr mask_L"
  by code_simp

lemma regionprops_mask_L:
  "regionprops (measure_label (clear_border mask_L)) =
     [\<lparr>label = 1, coords = [(1, 1), (2, 1), (3, 1), (3, 2), (3, 3)]\<rparr>,
      \<lparr>label = 2, coords = [(1, 3)]\<rparr>]"
  by code_simp

lemma regions_of_img_L:
  "regions_of img_L 50 1 =
     Inr [\<lparr>label = 1, coords = [(1, 1), (2, 1), (3, 1), (3, 2), (3, 3)]\<rparr>,
          \<lparr>label = 2, coords = [(1, 3)]\<rparr>]"
  unfolding regions_of_def
  by (simp only: concat_img_L np_percentile_img_L np_trunc_0 img_thresh_img_L
      binary_dilation_mask_L regionprops_mask_L if_False sum.case)

lemma shape_img_L: "shape0 img_L = 5" "shape1 img_L = 5"
  by (simp_all add: shape0_def shape1_def img_L_def)

lemma find_bounding_boxes_img_L:
  "find_bounding_boxes \<lparr>img_proc_np = Some g\<rparr> img_L 50 area_thresh 1 =
     Inr (map bbox (filter (\<lambda>reg. real (shape0 g) * real (shape1 g) * area_thresh \<le> real (area reg))
       [\<lparr>label = 1, coords = [(1, 1), (2, 1), (3, 1), (3, 2), (3, 3)]\<rparr>,
        \<lparr>label = 2, coords = [(1, 3)]\<rparr>]))"
  by (simp only: find_bounding_boxes_stages regions_of_img_L sum.case
      notebook_globals.select_convs option.case)

lemma find_bounding_boxes_img_L_both:
  "find_bounding_boxes \<lparr>img_proc_np = Some img_L\<rparr> img_L 50 (1/1000) 1 =
     Inr [(1, 1, 4, 4), (1, 3, 2, 4)]"
  unfolding find_bounding_boxes_img_L shape_img_L
  by (simp add: area_def bbox_def)

lemma find_bounding_boxes_img_L_own_size:
  "find_bounding_boxes \<lparr>img_proc_np = Some img_L\<rparr> img_L 50 (1/10) 1 = Inr [(1, 1, 4, 4)]"
  unfolding find_bounding_boxes_img_L shape_img_L
  by (simp add: area_def bbox_def)

lemma find_bounding_boxes_img_L_other_size:
  "find_bounding_boxes \<lparr>img_proc_np = Some [[0]]\<rparr> img_L 50 (1/10) 1 =
     Inr [(1, 1, 4, 4), (1, 3, 2, 4)]"
  unfolding find_bounding_boxes_img_L
  by (simp add: area_def bbox_def shape0_def shape1_def)

theorem find_bounding_boxes_disjoint_regions_witness:
  "find_bounding_boxes \<lparr>img_proc_np = Some img_L\<rparr> img_L 50 (1/1000) 1 =
     Inr [(1, 1, 4, 4), (1, 3, 2, 4)] \<and>
   (\<exists>all_regions g.
      regions_of img_L 50 1 = Inr all_regions \<and>
      img_proc_np \<lparr>img_proc_np = Some img_L\<rparr> = Some g \<and>
      [(1, 1, 4, 4), (1, 3, 2, 4)] =
        map bbox (filter (\<lambda>reg. real (shape0 g) * real (shape1 g) * (1/1000)
                                  \<le> real (area reg)) all_regions) \<and>
      map label all_regions = [1..<Suc (length all_regions)] \<and>
      (\<forall>r \<in> set all_regions. coords r \<noteq> [] \<and> connected8 (set (coords r)) \<and>
         (\<forall>p \<in> set (coords r). inside_bbox (bbox r) p) \<and> tight_bbox (bbox r) (coords r)) \<and>
      (\<forall>r \<in> set all_regions. \<forall>r' \<in> set all_regions.
         r \<noteq> r' \<longrightarrow> set (coords r) \<inter> set (coords r') = {} \<and>
           (\<forall>x \<in> set (coords r). \<forall>y \<in> set (coords r'). \<not> adjacent8 x y)))"
proof (rule conjI)
  show "find_bounding_boxes \<lparr>img_proc_np = Some img_L\<rparr> img_L 50 (1/1000) 1 =
     Inr [(1, 1, 4, 4), (1, 3, 2, 4)]"
    by (rule find_bounding_boxes_img_L_both)
next
  show "(\<exists>all_regions g.
      regions_of img_L 50 1 = Inr all_regions \<and>
      img_proc_np \<lparr>img_proc_np = Some img_L\<rparr> = Some g \<and>
      [(1, 1, 4, 4), (1, 3, 2, 4)] =
        map bbox (filter (\<lambda>reg. real (shape0 g) * real (shape1 g) * (1/1000)
                                  \<le> real (area reg)) all_regions) \<and>
      map label all_regions = [1..<Suc (length all_regions)] \<and>
      (\<forall>r \<in> set all_regions. coords r \<noteq> [] \<and> connected8 (set (coords r)) \<and>
         (\<forall>p \<in> set (coords r). inside_bbox (bbox r) p) \<and> tight_bbox (bbox r) (coords r)) \<and>
      (\<forall>r \<in> set all_regions. \<forall>r' \<in> set all_regions.
         r \<noteq> r' \<longrightarrow> set (coords r) \<inter> set (coords r') = {} \<and>
           (\<forall>x \<in> set (coords r). \<forall>y \<in> set (coords r'). \<not> adjacent8 x y)))"
    by (rule find_bounding_boxes_disjoint_regions [OF find_bounding_boxes_img_L_both])
qed

text \<open>
  The claim as stated fails: for the image \<open>img_L\<close> with \<open>perc_thresh = 50\<close>,
  \<open>area_thresh = 0.001\<close> and \<open>dilation_size = 1\<close> the L-shaped region and the single pixel
  at row 1, column 3 are two regions (they do not touch, not even diagonally), both are
  returned, and the pixel at row 1, column 3 lies in both boxes.
\<close>

theorem find_bounding_boxes_overlap_counterexample:
  "find_bounding_boxes \<lparr>img_proc_np = Some img_L\<rparr> img_L 50 (1/1000) 1 =
     Inr [(1, 1, 4, 4), (1, 3, 2, 4)] \<and>
   inside_bbox (1, 1, 4, 4) (1, 3) \<and> inside_bbox (1, 3, 2, 4) (1, 3)"
  by (simp add: find_bounding_boxes_img_L_both)

text \<open>
  The same with a dilation that is not the identity (\<open>dilation_size = 3\<close>, \<open>perc_thresh = 95\<close>,
  default \<open>area_thresh\<close>): three squares joined at their corners form one region, a fourth
  square is a region of its own, and the two boxes share the pixel at row 1, column 8.
\<close>

lemma np_percentile_img_diag:
  "np_percentile (map (\<lambda>p. real (unat p)) (concat img_diag)) 95 = Inr 0"
  by (simp add: img_diag_def np_percentile_def)

lemma concat_img_diag: "concat img_diag \<noteq> []"
  by (simp add: img_diag_def)

lemma binary_dilation_img_diag:
  "binary_dilation (map (map (\<lambda>v. 0 < v)) (cv2_threshold_binary_u8 img_diag 0 1)) 3 =
     Inr morph_diag"
  by code_simp

lemma regionprops_morph_diag:
  "map (\<lambda>reg. (area reg, bbox reg)) (regionprops (measure_label (clear_border morph_diag))) =
     [(27, (1, 1, 10, 10)), (9, (1, 8, 4, 11))]"
  by code_simp

lemma regions_of_img_diag:
  "regions_of img_diag 95 3 = Inr (regionprops (measure_label (clear_border morph_diag)))"
  unfolding regions_of_def
  by (simp only: concat_img_diag np_percentile_img_diag np_trunc_0 binary_dilation_img_diag
      if_False sum.case)

lemma map_bbox_filter_area:
  "map bbox (filter (\<lambda>reg. t \<le> real (area reg)) regions) =
     map snd (filter (\<lambda>ab. t \<le> real (fst ab)) (map (\<lambda>reg. (area reg, bbox reg)) regions))"
  by (induction regions) auto

lemma shape_img_diag: "shape0 img_diag = 11" "shape1 img_diag = 12"
  by (simp_all add: shape0_def shape1_def img_diag_def)

lemma find_bounding_boxes_overlap_dilated:
  "find_bounding_boxes \<lparr>img_proc_np = Some img_diag\<rparr> img_diag 95 (1/1000) 3 =
     Inr [(1, 1, 10, 10), (1, 8, 4, 11)] \<and>
   inside_bbox (1, 1, 10, 10) (1, 8) \<and> inside_bbox (1, 8, 4, 11) (1, 8)"
proof -
  have "find_bounding_boxes \<lparr>img_proc_np = Some img_diag\<rparr> img_diag 95 (1/1000) 3 =
          Inr (map snd (filter (\<lambda>ab. real 11 * real 12 * (1/1000) \<le> real (fst ab))
                 [(27, (1, 1, 10, 10)), (9, (1, 8, 4, 11))]))"
    by (simp only: find_bounding_boxes_stages regions_of_img_diag sum.case
        notebook_globals.select_convs option.case map_bbox_filter_area regionprops_morph_diag
        shape_img_diag)
  then show ?thesis by simp
qed

text \<open>
  What the area filter does: every returned box belongs to a region whose pixel count is
  at least \<open>area_thresh\<close> times the number of pixels of the global \<open>img_proc_np\<close>.
\<close>

lemma find_bounding_boxes_area_floor_global:
  assumes "find_bounding_boxes globals img perc_thresh area_thresh dilation_size = Inr bboxes"
  shows "\<exists>g regions. img_proc_np globals = Some g \<and> bboxes = map bbox regions \<and>
           (\<forall>r \<in> set regions.
              real (shape0 g) * real (shape1 g) * area_thresh \<le> real (area r))"
proof -
  from assms obtain all_regions g
    where g: "img_proc_np globals = Some g"
      and boxes: "bboxes = map bbox (filter (\<lambda>reg. real (shape0 g) * real (shape1 g) * area_thresh
                                             \<le> real (area reg)) all_regions)"
    by (auto simp: find_bounding_boxes_stages split: sum.splits option.splits)
  have "\<forall>r \<in> set (filter (\<lambda>reg. real (shape0 g) * real (shape1 g) * area_thresh
                                             \<le> real (area reg)) all_regions).
          real (shape0 g) * real (shape1 g) * area_thresh \<le> real (area r)"
    by simp
  with g boxes show ?thesis by blast
qed

text \<open>
  Claim C3 fails on the code. With \<open>area_thresh = 0.1\<close> the image \<open>img_L\<close> of 25 pixels
  admits regions of at least 2.5 pixels only. When the global \<open>img_proc_np\<close> is an image of
  one pixel, the floor the code computes is 0.1, and the box of the region of label 2, a
  single pixel, is returned.
\<close>

theorem find_bounding_boxes_area_floor_uses_global:
  "regions_of img_L 50 1 =
     Inr [\<lparr>label = 1, coords = [(1, 1), (2, 1), (3, 1), (3, 2), (3, 3)]\<rparr>,
          \<lparr>label = 2, coords = [(1, 3)]\<rparr>] \<and>
   find_bounding_boxes \<lparr>img_proc_np = Some [[0]]\<rparr> img_L 50 (1/10) 1 =
     Inr [bbox \<lparr>label = 1, coords = [(1, 1), (2, 1), (3, 1), (3, 2), (3, 3)]\<rparr>,
          bbox \<lparr>label = 2, coords = [(1, 3)]\<rparr>] \<and>
   real (area \<lparr>label = 2, coords = [(1, 3)]\<rparr>) < 1/10 * real (shape0 img_L * shape1 img_L)"
  unfolding find_bounding_boxes_img_L shape_img_L
  by (simp add: regions_of_img_L area_def shape0_def shape1_def)

lemma np_percentile_1x1: "np_percentile (map (\<lambda>p. real (unat p)) (concat [[200 :: 8 word]])) 99 = Inr 200"
  by (simp add: np_percentile_def)

lemma np_trunc_200: "np_trunc 200 = 200"
  by (simp add: np_trunc_def)

lemma img_thresh_1x1:
  "map (map (\<lambda>v. 0 < v)) (cv2_threshold_binary_u8 [[200]] 200 1) = [[False]]"
  by code_simp

lemma binary_dilation_1x1: "binary_dilation [[False]] 7 = Inr [[False]]"
  by code_simp

lemma regionprops_1x1: "regionprops (measure_label (clear_border [[False]])) = []"
  by code_simp

lemma concat_1x1: "concat [[200 :: 8 word]] \<noteq> []"
  by simp

lemma regions_of_1x1: "regions_of [[200]] 99 7 = Inr []"
  unfolding regions_of_def
  by (simp only: concat_1x1 np_percentile_1x1 np_trunc_200 img_thresh_1x1
      binary_dilation_1x1 regionprops_1x1 if_False sum.case)

lemma ft_1x1_detect_None:
  "ft_defect_detection (map (map complex_of_real)) (\<lambda>m. m) \<lparr>img_proc_np = None\<rparr>
     [[200]] (1/2) 99 (1/1000) 7 = Inl NameError"
  unfolding ft_defect_detection_def
  by (simp only: ft_1x1 find_bounding_boxes_stages regions_of_1x1 sum.case
      notebook_globals.select_convs option.case)

lemma ft_1x1_detect_Some:
  "ft_defect_detection (map (map complex_of_real)) (\<lambda>m. m) \<lparr>img_proc_np = Some [[0]]\<rparr>
     [[200]] (1/2) 99 (1/1000) 7 = Inr []"
  unfolding ft_defect_detection_def
  by (simp only: ft_1x1 find_bounding_boxes_stages regions_of_1x1 sum.case
      notebook_globals.select_convs option.case list.map filter.simps)


text \<open>
  Claim C8 fails on the code: the result depends on the notebook's global \<open>img_proc_np\<close>.
  Two calls of \<open>find_bounding_boxes\<close> with the same arguments return different box lists
  under two values of the global, and two calls of \<open>ft_defect_detection\<close> with the same
  arguments (an image of one pixel, where the discrete Fourier transform is the identity,
  and the default parameters) raise \<open>NameError\<close> while the global is not defined and return
  the empty list once it is.
\<close>

theorem ft_defect_detection_depends_on_global:
  "find_bounding_boxes \<lparr>img_proc_np = Some img_L\<rparr> img_L 50 (1/10) 1 = Inr [(1, 1, 4, 4)] \<and>
   find_bounding_boxes \<lparr>img_proc_np = Some [[0]]\<rparr> img_L 50 (1/10) 1 =
     Inr [(1, 1, 4, 4), (1, 3, 2, 4)] \<and>
   ft_defect_detection (map (map complex_of_real)) (\<lambda>m. m) \<lparr>img_proc_np = None\<rparr>
     [[200]] (1/2) 99 (1/1000) 7 = Inl NameError \<and>
   ft_defect_detection (map (map complex_of_real)) (\<lambda>m. m) \<lparr>img_proc_np = Some [[0]]\<rparr>
     [[200]] (1/2) 99 (1/1000) 7 = Inr []"
  by (intro conjI find_bounding_boxes_img_L_own_size find_bounding_boxes_img_L_other_size
      ft_1x1_detect_None ft_1x1_detect_Some)

end
